theory Spec2Isabelle
  imports Main
begin

section \<open>The chess melee solver (solver.ts)\<close>

subsection \<open>Enumerations and interfaces\<close>

datatype PieceType = Bishop | King | Knight | Pawn | Queen | Rook

datatype Color = White | Black

datatype MoveType = Jump | Slide

text \<open>Interface \<open>Move\<close>; the field \<open>type\<close> of the source is \<open>mtype\<close> here.\<close>

record Move =
  directionX :: int
  directionY :: int
  mtype :: MoveType

subsection \<open>JavaScript numbers and strings, as far as \<open>calculatePosition\<close> uses them\<close>

text \<open>
  A number is an integer or NaN (\<open>None\<close>). NaN arises from \<open>charCodeAt\<close> on an empty
  string and from \<open>parseInt\<close> on a string that does not start with a digit; every
  comparison with NaN is false and NaN is absorbing for \<open>+\<close>.
  Strings are lists of 8-bit characters: the labels of the program are ASCII.
\<close>

type_synonym number = "int option"

definition charCodeAt0 :: "string \<Rightarrow> number" where
  "charCodeAt0 s = (case s of [] \<Rightarrow> None | c # _ \<Rightarrow> Some (of_char c))"

definition charAt1 :: "string \<Rightarrow> string" where
  "charAt1 s = (case s of _ # c # _ \<Rightarrow> [c] | _ \<Rightarrow> [])"

text \<open>\<open>parseInt\<close> on the result of \<open>charAt\<close>, a string of at most one character: the value
  of a decimal digit, NaN otherwise.\<close>

definition parseInt :: "string \<Rightarrow> number" where
  "parseInt s = (case s of
       [c] \<Rightarrow> (if (48::int) \<le> of_char c \<and> of_char c \<le> (57::int)
               then Some (of_char c - 48) else None)
     | _ \<Rightarrow> None)"

definition num_add :: "number \<Rightarrow> int \<Rightarrow> number" where
  "num_add a b = (case a of None \<Rightarrow> None | Some v \<Rightarrow> Some (v + b))"

definition num_lt :: "number \<Rightarrow> int \<Rightarrow> bool" where
  "num_lt a b = (case a of None \<Rightarrow> False | Some v \<Rightarrow> v < b)"

definition num_gt :: "number \<Rightarrow> int \<Rightarrow> bool" where
  "num_gt a b = (case a of None \<Rightarrow> False | Some v \<Rightarrow> v > b)"

text \<open>\<open>String.fromCharCode\<close>: NaN is converted to the code unit 0. It is only reached
  with NaN or with a code in 97..104.\<close>

definition fromCharCode :: "number \<Rightarrow> string" where
  "fromCharCode a = (case a of None \<Rightarrow> [char_of (0::int)] | Some v \<Rightarrow> [char_of v])"

text \<open>The number-to-string conversion of the template literal. It is only reached with NaN
  or with a value in 1..8, whose decimal representation is one digit.\<close>

definition numberToString :: "number \<Rightarrow> string" where
  "numberToString a = (case a of None \<Rightarrow> ''NaN'' | Some v \<Rightarrow> [char_of (v + 48)])"

subsection \<open>\<open>calculatePosition\<close>\<close>

definition calculatePosition :: "string \<Rightarrow> Move \<Rightarrow> int \<Rightarrow> string option" where
  "calculatePosition start move multiplier =
     (let x = num_add (charCodeAt0 start) (- 96);
          y = parseInt (charAt1 start);
          x = num_add x (multiplier * directionX move);
          y = num_add y (multiplier * directionY move)
      in if num_lt x 1 \<or> num_gt x 8 \<or> num_lt y 1 \<or> num_gt y 8
         then None
         else Some (fromCharCode (num_add x 96) @ numberToString y))"

text \<open>A valid algebraic label: a file letter a..h followed by a rank digit 1..8.\<close>

definition validLabel :: "string \<Rightarrow> bool" where
  "validLabel s = (case s of
       [f, r] \<Rightarrow> f \<in> set ''abcdefgh'' \<and> r \<in> set ''12345678''
     | _ \<Rightarrow> False)"

subsection \<open>Pieces, captures and boards\<close>

abbreviation (input) mv :: "int \<Rightarrow> int \<Rightarrow> MoveType \<Rightarrow> Move" where
  "mv dx dy t \<equiv> \<lparr>directionX = dx, directionY = dy, mtype = t\<rparr>"

text \<open>Class \<open>Piece\<close>: the contents of one piece object. The field \<open>type\<close> of the source
  is \<open>ptype\<close> here.\<close>

record Piece =
  moveOptions :: "Move list"
  ptype :: PieceType
  color :: Color
  position :: string

text \<open>The constructor of \<open>Piece\<close>, with the branches in the order of the source.\<close>

definition new_Piece :: "PieceType \<Rightarrow> Color \<Rightarrow> string \<Rightarrow> Piece" where
  "new_Piece type col pos =
     \<lparr>moveOptions =
        (if type = Bishop then
           [mv (-1) (-1) Slide, mv (-1) 1 Slide, mv 1 (-1) Slide, mv 1 1 Slide]
         else if type = King then
           [mv (-1) (-1) Jump, mv (-1) 0 Jump, mv (-1) 1 Jump, mv 0 (-1) Jump,
            mv 0 1 Jump, mv 1 (-1) Jump, mv 1 0 Jump, mv 1 1 Jump]
         else if type = Knight then
           [mv (-2) (-1) Jump, mv (-2) 1 Jump, mv (-1) (-2) Jump, mv (-1) 2 Jump,
            mv 1 (-2) Jump, mv 1 2 Jump, mv 2 (-1) Jump, mv 2 1 Jump]
         else if type = Pawn \<and> col = White then
           [mv (-1) 1 Jump, mv 1 1 Jump]
         else if type = Pawn \<and> col = Black then
           [mv (-1) (-1) Jump, mv 1 (-1) Jump]
         else if type = Queen then
           [mv (-1) (-1) Slide, mv (-1) 1 Slide, mv 1 (-1) Slide, mv 1 1 Slide,
            mv (-1) 0 Slide, mv 0 (-1) Slide, mv 0 1 Slide, mv 1 0 Slide]
         else if type = Rook then
           [mv (-1) 0 Slide, mv 0 (-1) Slide, mv 0 1 Slide, mv 1 0 Slide]
         else []),
      ptype = type, color = col, position = pos\<rparr>"

definition Piece_clone :: "Piece \<Rightarrow> Piece" where
  "Piece_clone this = new_Piece (ptype this) (color this) (position this)"

text \<open>Interface \<open>Capture\<close>. A capture holds references to two piece objects; in this
  record it holds their contents. The search only reads captures whose pieces belong to a
  board that is no longer mutated, so there the contents are those at generation time.\<close>

record Capture =
  attacker :: Piece
  target :: Piece

text \<open>Class \<open>Board\<close>: the array of pieces, by contents.\<close>

record Board =
  pieces :: "Piece list"

text \<open>\<open>findPiece\<close>: \<open>forEach\<close> visits every piece and overwrites \<open>result\<close> at each match.\<close>

definition findPiece :: "Board \<Rightarrow> string \<Rightarrow> Piece option" where
  "findPiece this pos =
     fold (\<lambda>piece result. if position piece = pos then Some piece else result)
       (pieces this) None"

definition Board_clone :: "Board \<Rightarrow> Board" where
  "Board_clone this = \<lparr>pieces = map Piece_clone (pieces this)\<rparr>"

subsection \<open>\<open>getPossibleCaptures\<close>\<close>

text \<open>The \<open>for\<close> loop of a Slide move, from step \<open>i\<close> on; \<open>break\<close> returns the captures.
  A string is truthy when it is not empty; \<open>tgt\<close> is the source's local \<open>target\<close>.\<close>

function slideLoop :: "Piece \<Rightarrow> Board \<Rightarrow> Move \<Rightarrow> nat \<Rightarrow> Capture list \<Rightarrow> Capture list" where
  "slideLoop this board move i captures =
     (if i \<le> 7 then
        (case calculatePosition (position this) move (int i) of
           None \<Rightarrow> slideLoop this board move (Suc i) captures
         | Some newPosition \<Rightarrow>
             if newPosition \<noteq> [] then
               (case findPiece board newPosition of
                  None \<Rightarrow> slideLoop this board move (Suc i) captures
                | Some tgt \<Rightarrow>
                    if color tgt \<noteq> color this
                    then captures @ [\<lparr>attacker = this, target = tgt\<rparr>]
                    else captures)
             else slideLoop this board move (Suc i) captures)
      else captures)"
  by pat_completeness auto
termination
  by (relation "measure (\<lambda>(this, board, move, i, captures). 8 - i)") auto

declare slideLoop.simps [simp del]

text \<open>The callback of \<open>moveOptions.forEach\<close>: what one move adds to \<open>captures\<close>.\<close>

definition forMove :: "Piece \<Rightarrow> Board \<Rightarrow> Move \<Rightarrow> Capture list \<Rightarrow> Capture list" where
  "forMove this board move captures =
     (if mtype move = Jump then
        (case calculatePosition (position this) move 1 of
           None \<Rightarrow> captures
         | Some newPosition \<Rightarrow>
             if newPosition \<noteq> [] then
               (case findPiece board newPosition of
                  None \<Rightarrow> captures
                | Some tgt \<Rightarrow>
                    if color tgt \<noteq> color this
                    then captures @ [\<lparr>attacker = this, target = tgt\<rparr>]
                    else captures)
             else captures)
      else if mtype move = Slide then slideLoop this board move 1 captures
      else captures)"

definition getPossibleCaptures :: "Piece \<Rightarrow> Board \<Rightarrow> Capture list" where
  "getPossibleCaptures this board = fold (forMove this board) (moveOptions this) []"

subsection \<open>\<open>applyCapture\<close>, on a store of piece objects\<close>

text \<open>
  \<open>applyCapture\<close> mutates piece objects and compares against \<open>capture.attacker.position\<close>
  and \<open>capture.target.position\<close>, which it reads again at every iteration. Whether the
  capture's pieces are elements of \<open>this.pieces\<close> therefore matters, and the method is
  modelled on a store: a piece object is a reference, the store maps references to
  contents, \<open>this.pieces\<close> is a list of references, and the capture is the pair of the
  attacker's and the target's reference.
\<close>

type_synonym ref = nat
type_synonym store = "ref \<Rightarrow> Piece"

text \<open>The removal loop from index \<open>i\<close> on: \<open>splice(i, 1)\<close> at the first match, then
  \<open>break\<close>.\<close>

function removeLoop :: "store \<Rightarrow> ref list \<Rightarrow> ref \<Rightarrow> nat \<Rightarrow> ref list" where
  "removeLoop h ps tgt i =
     (if i < length ps then
        (if position (h (ps ! i)) = position (h tgt)
         then take i ps @ drop (Suc i) ps
         else removeLoop h ps tgt (Suc i))
      else ps)"
  by pat_completeness auto
termination
  by (relation "measure (\<lambda>(h, ps, tgt, i). length ps - i)") auto

declare removeLoop.simps [simp del]

text \<open>The callback of the second loop: one piece is compared and, on a match, moved.\<close>

definition setPosition :: "ref \<Rightarrow> ref \<Rightarrow> ref \<Rightarrow> store \<Rightarrow> store" where
  "setPosition att tgt piece h =
     (if position (h piece) = position (h att)
      then h(piece := (h piece)\<lparr>position := position (h tgt)\<rparr>)
      else h)"

text \<open>The result is the new store, the new \<open>this.pieces\<close> and the returned boolean. The
  comparison is on integers: on an empty board \<open>initialAmount - 1\<close> is \<open>-1\<close>.\<close>

definition applyCapture :: "store \<Rightarrow> ref list \<Rightarrow> ref \<Rightarrow> ref \<Rightarrow> store \<times> ref list \<times> bool" where
  "applyCapture h ps att tgt =
     (let initialAmount = int (length ps);
          ps' = removeLoop h ps tgt 0;
          h' = fold (setPosition att tgt) ps' h
      in (h', ps', int (length ps') = initialAmount - 1))"

text \<open>The contents of a list of piece objects.\<close>

definition contents :: "store \<Rightarrow> ref list \<Rightarrow> Board" where
  "contents h ps = \<lparr>pieces = map h ps\<rparr>"

text \<open>
  The two statements \<open>newBoard = this.clone(); result = newBoard.applyCapture(capture)\<close> of
  the search. The clone's pieces are fresh objects, here the references \<open>0..n-1\<close>; the
  capture's pieces are objects of the receiver, not of the clone, here the references \<open>n\<close>
  and \<open>n+1\<close>. The result is the contents of \<open>newBoard\<close> afterwards and \<open>result\<close>.
\<close>

definition cloneAndApply :: "Board \<Rightarrow> Capture \<Rightarrow> Board \<times> bool" where
  "cloneAndApply this capture =
     (let newBoard = Board_clone this;
          n = length (pieces newBoard);
          h = (\<lambda>r. if r < n then pieces newBoard ! r
                    else if r = n then attacker capture else target capture);
          (h', ps', result) = applyCapture h [0..<n] n (Suc n)
      in (contents h' ps', result))"

subsection \<open>The search\<close>

text \<open>
  What the program writes to the console: \<open>Solved history\<close> stands for the line
  \<open>Solved\<close> followed by the lines of \<open>printHistory(history)\<close>, \<open>MoveFailed\<close> for the line
  \<open>Move failed\<close>.
\<close>

datatype Output = Solved "Capture list" | MoveFailed

text \<open>The global variables \<open>solutionsCount\<close> and \<open>deadEndCount\<close>, and the console.\<close>

record Globals =
  solutionsCount :: nat
  deadEndCount :: nat
  console :: "Output list"

definition initialGlobals :: Globals where
  "initialGlobals = \<lparr>solutionsCount = 0, deadEndCount = 0, console = []\<rparr>"

text \<open>
  \<open>solveRecursive\<close>. The two \<open>forEach\<close> loops are folds: the outer one carries the local
  \<open>movePossible\<close> and the globals, the inner one the globals. The receiver is not mutated
  while its pieces are visited: every capture is applied to a clone.
\<close>

function solveRecursive :: "Board \<Rightarrow> Capture list \<Rightarrow> Color \<Rightarrow> Globals \<Rightarrow> Globals" where
  "solveRecursive this history turnColor g =
     (if length (pieces this) = 1 then
        g\<lparr>console := console g @ [Solved history],
          solutionsCount := solutionsCount g + 1\<rparr>
      else
        (let (movePossible, g') =
           fold (\<lambda>piece (movePossible, g).
               if color piece = turnColor then
                 (let captures = getPossibleCaptures piece this;
                      movePossible = (if length captures > 0 then True else movePossible)
                  in (movePossible,
                      fold (\<lambda>capture g.
                          (let (newBoard, result) = cloneAndApply this capture
                           in if result then
                                (let nextColor = (if turnColor = White then Black else White)
                                 in solveRecursive newBoard (history @ [capture]) nextColor g)
                              else g\<lparr>console := console g @ [MoveFailed]\<rparr>))
                        captures g))
               else (movePossible, g))
             (pieces this) (False, g)
         in if \<not> movePossible then g'\<lparr>deadEndCount := deadEndCount g' + 1\<rparr> else g'))"
  by pat_completeness auto

termination
proof (relation "measure (\<lambda>(this, history, turnColor, g). length (pieces this))", goal_cases)
  case 1
  show ?case by simp
next
  case (2 this history turnColor g piece mp0 g0 captures mp1 capture g1 r newBoard result
      nextColor)
  then have "cloneAndApply this capture = (newBoard, True)"
    by simp
  then have "int (length (pieces newBoard)) = int (length (pieces this)) - 1"
    by (auto simp: cloneAndApply_def applyCapture_def contents_def Board_clone_def Let_def)
  then show ?case by simp
qed

declare solveRecursive.simps [simp del]

text \<open>\<open>solve\<close>, run on the initial values of the globals.\<close>

definition solve :: "Board \<Rightarrow> Globals" where
  "solve this = solveRecursive this [] White initialGlobals"

subsection \<open>Auxiliary notions for the statements\<close>

text \<open>Removing the first element that satisfies a predicate.\<close>

fun removeFirst :: "('a \<Rightarrow> bool) \<Rightarrow> 'a list \<Rightarrow> 'a list" where
  "removeFirst P [] = []"
| "removeFirst P (x # xs) = (if P x then xs else x # removeFirst P xs)"

text \<open>A piece at position \<open>ap\<close> is moved to \<open>tp\<close>, any other piece is left alone.\<close>

definition moved :: "string \<Rightarrow> string \<Rightarrow> Piece \<Rightarrow> Piece" where
  "moved ap tp p = (if position p = ap then p\<lparr>position := tp\<rparr> else p)"

text \<open>A store for examples: object 0 is a white rook on d4, every other object a black
  pawn on d7.\<close>

definition exampleStore :: store where
  "exampleStore = (\<lambda>r. if r = 0 then new_Piece Rook White ''d4''
                         else new_Piece Pawn Black ''d7'')"

text \<open>The label of the square with file \<open>x\<close> and rank \<open>y\<close>, both in 1..8.\<close>

definition encode :: "int \<Rightarrow> int \<Rightarrow> string" where
  "encode x y = [char_of (x + 96), char_of (y + 48)]"

definition onBoard :: "int \<Rightarrow> int \<Rightarrow> bool" where
  "onBoard x y = (1 \<le> x \<and> x \<le> 8 \<and> 1 \<le> y \<and> y \<le> 8)"

text \<open>What a piece finds \<open>i\<close> steps along a move: the piece that \<open>findPiece\<close> returns for
  the square reached, nothing when the square is off the board or empty.\<close>

definition occupant :: "Piece \<Rightarrow> Board \<Rightarrow> Move \<Rightarrow> nat \<Rightarrow> Piece option" where
  "occupant this board move i =
     (case calculatePosition (position this) move (int i) of
        None \<Rightarrow> None
      | Some newPosition \<Rightarrow> findPiece board newPosition)"



text \<open>A board for examples: a white rook on d4, a white pawn on d6, a black pawn on d7 and
  a black knight on a4.\<close>

definition exampleBoard :: Board where
  "exampleBoard = \<lparr>pieces = [new_Piece Rook White ''d4'', new_Piece Pawn White ''d6'',
     new_Piece Pawn Black ''d7'', new_Piece Knight Black ''a4'']\<rparr>"

text \<open>The captures that the two loops of \<open>solveRecursive\<close> find for the side to move, in
  the order in which they are visited.\<close>

definition allCaptures :: "Board \<Rightarrow> Color \<Rightarrow> Capture list" where
  "allCaptures this turnColor =
     concat (map (\<lambda>piece. if color piece = turnColor then getPossibleCaptures piece this else [])
       (pieces this))"

text \<open>The recursive invocations that one invocation of \<open>solveRecursive\<close> makes itself, in
  order: receiver, history and turn color of each.\<close>

definition recursiveCalls :: "Board \<Rightarrow> Capture list \<Rightarrow> Color \<Rightarrow> (Board \<times> Capture list \<times> Color) list" where
  "recursiveCalls this history turnColor =
     (if length (pieces this) = 1 then []
      else concat (map (\<lambda>capture.
          (let (newBoard, result) = cloneAndApply this capture
           in if result
              then [(newBoard, history @ [capture], if turnColor = White then Black else White)]
              else []))
        (allCaptures this turnColor)))"

text \<open>A list of colors alternates, beginning with \<open>c\<close>.\<close>

fun alternates :: "Color \<Rightarrow> Color list \<Rightarrow> bool" where
  "alternates c [] = True"
| "alternates c (d # ds) = (d = c \<and> alternates (if c = White then Black else White) ds)"

text \<open>What an invocation with history \<open>h\<close> and turn color \<open>t\<close> may do to the console, from
  globals \<open>g\<close> to globals \<open>g'\<close>: it only appends, and every solution it appends continues \<open>h\<close>
  with captures whose attacker colors alternate, beginning with \<open>t\<close>.\<close>

definition appendsAlternating :: "Capture list \<Rightarrow> Color \<Rightarrow> Globals \<Rightarrow> Globals \<Rightarrow> bool" where
  "appendsAlternating h t g g' =
     (\<exists>new. console g' = console g @ new \<and>
        (\<forall>hist. Solved hist \<in> set new \<longrightarrow>
           (\<exists>ext. hist = h @ ext \<and> alternates t (map (\<lambda>c. color (attacker c)) ext))))"

text \<open>A board for examples: a white knight on a1 and a black pawn on b2. The pawn attacks
  the knight, the knight does not attack the pawn.\<close>

definition deadEndBoard :: Board where
  "deadEndBoard = \<lparr>pieces = [new_Piece Knight White ''a1'', new_Piece Pawn Black ''b2'']\<rparr>"

text \<open>A board for examples: a white rook on d4 and a black knight on a4.\<close>

definition captureBoard :: Board where
  "captureBoard = \<lparr>pieces = [new_Piece Rook White ''d4'', new_Piece Knight Black ''a4'']\<rparr>"

text \<open>A move of a piece at \<open>pos\<close> lands exactly on the square \<open>pos'\<close>: in one step for
  a Jump, in some number of steps from 1 to 7 for a Slide.\<close>

definition landsOn :: "string \<Rightarrow> Move \<Rightarrow> string \<Rightarrow> bool" where
  "landsOn pos m pos' =
     ((mtype m = Jump \<and> calculatePosition pos m 1 = Some pos') \<or>
      (mtype m = Slide \<and> (\<exists>k\<in>{1..7::nat}. calculatePosition pos m (int k) = Some pos')))"

text \<open>A board for examples: a white rook on a1 and black queens on a8 and h1. The rook
  attacks both queens, and each queen attacks the square of the other.\<close>

definition altBoard :: Board where
  "altBoard = \<lparr>pieces = [new_Piece Rook White ''a1'', new_Piece Queen Black ''a8'',
     new_Piece Queen Black ''h1'']\<rparr>"

section \<open>Properties\<close>

subsection \<open>\<open>applyCapture\<close> on a clone\<close>

lemma removeLoop_removeFirst:
  "i \<le> length ps \<Longrightarrow>
   removeLoop h ps tgt i =
     take i ps @ removeFirst (\<lambda>r. position (h r) = position (h tgt)) (drop i ps)"
proof (induction h ps tgt i rule: removeLoop.induct)
  case (1 h ps tgt i)
  note unfold = removeLoop.simps [of h ps tgt i]
  show ?case
  proof (cases "i < length ps")
    case False
    with 1 unfold show ?thesis by simp
  next
    case True
    then have d: "drop i ps = ps ! i # drop (Suc i) ps"
      by (simp add: Cons_nth_drop_Suc)
    show ?thesis
    proof (cases "position (h (ps ! i)) = position (h tgt)")
      case True
      with \<open>i < length ps\<close> d unfold show ?thesis by simp
    next
      case False
      with \<open>i < length ps\<close> 1 d unfold show ?thesis
        by (simp add: take_Suc_conv_app_nth)
    qed
  qed
qed

lemma length_removeFirst:
  "length (removeFirst P xs) = (if \<exists>x\<in>set xs. P x then length xs - 1 else length xs)"
  by (induction xs) (auto dest: length_pos_if_in_set)

lemma set_removeFirst: "set (removeFirst P xs) \<subseteq> set xs"
  by (induction xs) auto

lemma map_removeFirst: "map f (removeFirst (\<lambda>x. P (f x)) xs) = removeFirst P (map f xs)"
  by (induction xs) auto

lemma fold_setPosition_fresh:
  "att \<notin> set ps \<Longrightarrow> tgt \<notin> set ps \<Longrightarrow>
   fold (setPosition att tgt) ps h =
     (\<lambda>r. if r \<in> set ps then moved (position (h att)) (position (h tgt)) (h r) else h r)"
proof (induction ps arbitrary: h)
  case Nil
  show ?case by simp
next
  case (Cons p ps)
  let ?h1 = "setPosition att tgt p h"
  from Cons.prems have ne: "p \<noteq> att" "p \<noteq> tgt" and fresh: "att \<notin> set ps" "tgt \<notin> set ps"
    by auto
  from ne have same: "?h1 att = h att" "?h1 tgt = h tgt"
    by (simp_all add: setPosition_def)
  have "fold (setPosition att tgt) (p # ps) h = fold (setPosition att tgt) ps ?h1"
    by simp
  also have "\<dots> = (\<lambda>r. if r \<in> set ps
        then moved (position (h att)) (position (h tgt)) (?h1 r) else ?h1 r)"
    using Cons.IH [OF fresh, of ?h1] by (simp only: same)
  also have "\<dots> = (\<lambda>r. if r \<in> set (p # ps)
        then moved (position (h att)) (position (h tgt)) (h r) else h r)"
    by (rule ext) (auto simp: setPosition_def moved_def)
  finally show ?case .
qed

lemma cloneAndApply_eq:
  "cloneAndApply this capture =
     (\<lparr>pieces = map (moved (position (attacker capture)) (position (target capture)))
         (removeFirst (\<lambda>p. position p = position (target capture))
            (map Piece_clone (pieces this)))\<rparr>,
      \<exists>p\<in>set (pieces this). position p = position (target capture))"
proof -
  define n where "n = length (pieces this)"
  define nb where "nb = map Piece_clone (pieces this)"
  define h where "h = (\<lambda>r. if r < n then nb ! r
                    else if r = n then attacker capture else target capture)"
  define P :: "Piece \<Rightarrow> bool" where "P = (\<lambda>p. position p = position (target capture))"
  have ln: "length nb = n" by (simp add: nb_def n_def)
  have hn: "h n = attacker capture" "h (Suc n) = target capture"
    by (simp_all add: h_def)
  have mh: "map h [0..<n] = nb"
    by (rule nth_equalityI) (simp_all add: ln h_def)
  define ps' where "ps' = removeFirst (\<lambda>r. P (h r)) [0..<n]"
  have rl: "removeLoop h [0..<n] (Suc n) 0 = ps'"
    by (simp add: removeLoop_removeFirst ps'_def P_def hn)
  have sub: "set ps' \<subseteq> {0..<n}"
    unfolding ps'_def using set_removeFirst [of "\<lambda>r. P (h r)" "[0..<n]"] by simp
  then have fresh: "n \<notin> set ps'" "Suc n \<notin> set ps'" by auto
  have fo: "map (fold (setPosition n (Suc n)) ps' h) ps' =
        map (moved (position (attacker capture)) (position (target capture))) (removeFirst P nb)"
  proof -
    have "map (fold (setPosition n (Suc n)) ps' h) ps' =
        map (\<lambda>r. moved (position (attacker capture)) (position (target capture)) (h r)) ps'"
      by (simp add: fold_setPosition_fresh [OF fresh] hn)
    also have "\<dots> = map (moved (position (attacker capture)) (position (target capture)))
        (map h ps')"
      by simp
    also have "map h ps' = removeFirst P nb"
      unfolding ps'_def by (simp add: map_removeFirst mh)
    finally show ?thesis .
  qed
  have ex: "(\<exists>r\<in>set [0..<n]. P (h r)) = (\<exists>p\<in>set (pieces this). position p = position (target capture))"
  proof -
    have "(\<exists>r\<in>set [0..<n]. P (h r)) = (\<exists>p\<in>set (map h [0..<n]). P p)"
      by (simp only: set_map bex_simps(7))
    also have "\<dots> = (\<exists>p\<in>set (pieces this). position p = position (target capture))"
      by (simp add: mh nb_def P_def Piece_clone_def new_Piece_def)
    finally show ?thesis .
  qed
  have res: "(int (length ps') = int n - 1) = (\<exists>p\<in>set (pieces this). position p = position (target capture))"
  proof -
    have "length ps' = (if \<exists>r\<in>set [0..<n]. P (h r) then n - 1 else n)"
      unfolding ps'_def by (simp add: length_removeFirst)
    moreover have "(\<exists>r\<in>set [0..<n]. P (h r)) \<Longrightarrow> 0 < n" by auto
    ultimately show ?thesis
      unfolding ex [symmetric]
      by (cases "\<exists>r\<in>set [0..<n]. P (h r)") simp_all
  qed
  have "applyCapture h [0..<n] n (Suc n) =
      (fold (setPosition n (Suc n)) ps' h, ps', int (length ps') = int n - 1)"
    by (simp add: applyCapture_def Let_def rl)
  moreover have "cloneAndApply this capture =
      (case applyCapture h [0..<n] n (Suc n) of (h', ps', result) \<Rightarrow> (contents h' ps', result))"
    unfolding cloneAndApply_def Board_clone_def Let_def h_def nb_def n_def
    by (simp cong: if_cong)
  ultimately show ?thesis
    by (simp add: contents_def fo res P_def nb_def)
qed

subsection \<open>\<open>findPiece\<close>\<close>

lemma findPiece_fold:
  "fold (\<lambda>piece result. if position piece = pos then Some piece else result) ps r =
     (if filter (\<lambda>p. position p = pos) ps = [] then r
      else Some (last (filter (\<lambda>p. position p = pos) ps)))"
  by (induction ps arbitrary: r) auto

lemma findPiece_filter:
  "findPiece b pos =
     (if filter (\<lambda>p. position p = pos) (pieces b) = [] then None
      else Some (last (filter (\<lambda>p. position p = pos) (pieces b))))"
  unfolding findPiece_def by (rule findPiece_fold)

lemma findPiece_SomeD:
  assumes "findPiece b pos = Some t"
  shows "t \<in> set (pieces b) \<and> position t = pos"
proof -
  let ?fs = "filter (\<lambda>p. position p = pos) (pieces b)"
  from assms have ne: "?fs \<noteq> []" and t: "t = last ?fs"
    by (auto simp: findPiece_filter split: if_splits)
  from ne have "last ?fs \<in> set ?fs" by (rule last_in_set)
  with t show ?thesis by auto
qed

lemma findPiece_None_iff:
  "findPiece b pos = None \<longleftrightarrow> (\<forall>p\<in>set (pieces b). position p \<noteq> pos)"
  by (auto simp: findPiece_filter filter_empty_conv)


text \<open>
  Claim C2, as the code has it: when several pieces share a position label, \<open>findPiece\<close> of
  that label returns the one that occurs last in the list (the loop does not stop at the
  first match and overwrites its result at every match). The first theorem is an instance
  where the result is not the first piece at the label.
\<close>

theorem findPiece_first_counterexample:
  "findPiece \<lparr>pieces = [new_Piece Pawn White ''a1'', new_Piece King Black ''a1'']\<rparr> ''a1''
     = Some (new_Piece King Black ''a1'')
   \<and> position (new_Piece Pawn White ''a1'') = ''a1''
   \<and> position (new_Piece King Black ''a1'') = ''a1''
   \<and> new_Piece King Black ''a1'' \<noteq> new_Piece Pawn White ''a1''"
  by (simp add: findPiece_def new_Piece_def)

text \<open>
  Claim C2 (amended): for every board with at least one piece at a position label, and so
  for every board with two or more pieces sharing it, \<open>findPiece\<close> of that label returns
  the piece that occurs last in the list order among those at that position.
\<close>

theorem findPiece_last:
  assumes "\<exists>p\<in>set (pieces b). position p = pos"
  shows "findPiece b pos = Some (last (filter (\<lambda>p. position p = pos) (pieces b)))"
  using assms by (auto simp: findPiece_filter filter_empty_conv)

theorem findPiece_last_witness:
  "(\<exists>p\<in>set (pieces \<lparr>pieces = [new_Piece Pawn White ''a1'', new_Piece Rook White ''c3'',
        new_Piece King Black ''a1'']\<rparr>). position p = ''a1'')
   \<and> findPiece \<lparr>pieces = [new_Piece Pawn White ''a1'', new_Piece Rook White ''c3'',
        new_Piece King Black ''a1'']\<rparr> ''a1'' = Some (new_Piece King Black ''a1'')"
  using findPiece_last [of "\<lparr>pieces = [new_Piece Pawn White ''a1'', new_Piece Rook White ''c3'',
        new_Piece King Black ''a1'']\<rparr>" "''a1''"]
  by (simp add: new_Piece_def)


subsection \<open>\<open>calculatePosition\<close>\<close>

text \<open>
  Claim C8: for every valid algebraic label \<open>L\<close> (file letter a..h, rank digit 1..8) and
  every move direction, \<open>calculatePosition\<close> with multiplier 0 returns \<open>L\<close> itself: decoding
  a valid label and encoding the pair again reproduces the label.
\<close>

theorem calculatePosition_zero:
  "validLabel L \<Longrightarrow> calculatePosition L move 0 = Some L"
  by (auto simp: validLabel_def calculatePosition_def charCodeAt0_def charAt1_def
      parseInt_def num_add_def num_lt_def num_gt_def fromCharCode_def numberToString_def
      split: list.splits)

theorem calculatePosition_zero_witness:
  "validLabel ''e4'' \<and> calculatePosition ''e4'' (mv 1 (-1) Slide) 0 = Some ''e4''"
  using calculatePosition_zero [of "''e4''" "mv 1 (-1) Slide"]
  by (simp add: validLabel_def)

subsection \<open>\<open>applyCapture\<close> on the store\<close>

lemma fold_setPosition_nomatch:
  "\<forall>r\<in>set ps. position (h r) \<noteq> position (h att) \<Longrightarrow> fold (setPosition att tgt) ps h = h"
  by (induction ps) (simp_all add: setPosition_def)

lemma setPosition_keeps:
  "position (h tgt) = tp \<Longrightarrow> position (h r) = tp \<Longrightarrow>
   position (setPosition att tgt p h tgt) = tp \<and> position (setPosition att tgt p h r) = tp"
  by (simp add: setPosition_def)

lemma fold_setPosition_keeps:
  "position (h tgt) = tp \<Longrightarrow> position (h r) = tp \<Longrightarrow>
   position (fold (setPosition att tgt) ps h tgt) = tp \<and>
   position (fold (setPosition att tgt) ps h r) = tp"
proof (induction ps arbitrary: h)
  case Nil
  then show ?case by simp
next
  case (Cons p ps)
  from setPosition_keeps [OF Cons.prems, of att p]
  show ?case by (simp add: Cons.IH)
qed

lemma fold_setPosition_first:
  assumes "\<forall>r\<in>set xs. position (h r) \<noteq> position (h att)"
    and "position (h a) = position (h att)"
  shows "position (fold (setPosition att tgt) (xs @ a # ys) h a) = position (h tgt)"
proof -
  let ?h1 = "setPosition att tgt a h"
  have "fold (setPosition att tgt) (xs @ a # ys) h = fold (setPosition att tgt) ys ?h1"
    using assms(1) by (simp add: fold_setPosition_nomatch)
  moreover have "position (?h1 tgt) = position (h tgt)" "position (?h1 a) = position (h tgt)"
    using assms(2) by (simp_all add: setPosition_def)
  ultimately show ?thesis
    using fold_setPosition_keeps [of ?h1 tgt "position (h tgt)" a att ys] by simp
qed

lemma fold_setPosition_unique:
  assumes d: "distinct (map (\<lambda>r. position (h r)) ps)"
    and a: "a \<in> set ps" "position (h a) = position (h att)"
    and nt: "\<forall>r\<in>set ps. position (h r) \<noteq> position (h tgt)"
  shows "fold (setPosition att tgt) ps h = h(a := (h a)\<lparr>position := position (h tgt)\<rparr>)"
proof -
  from a(1) obtain xs ys where ps: "ps = xs @ a # ys"
    by (auto dest: split_list)
  from d have dps: "distinct ps" and inj: "inj_on (\<lambda>r. position (h r)) (set ps)"
    by (simp_all add: distinct_map)
  from dps have ax: "a \<notin> set xs" and ay: "a \<notin> set ys"
    unfolding ps by auto
  have other: "position (h r) \<noteq> position (h att)" if "r \<in> set ps" "r \<noteq> a" for r
    using inj_onD [OF inj _ that(1) a(1)] that(2) a(2) by auto
  from ax have nx: "\<forall>r\<in>set xs. position (h r) \<noteq> position (h att)"
    using other unfolding ps by auto
  from ay have ny: "\<forall>r\<in>set ys. position (h r) \<noteq> position (h att)"
    using other unfolding ps by auto
  let ?h1 = "h(a := (h a)\<lparr>position := position (h tgt)\<rparr>)"
  have s1: "setPosition att tgt a h = ?h1"
    using a(2) by (simp add: setPosition_def)
  have "\<forall>r\<in>set ys. position (?h1 r) \<noteq> position (?h1 att)"
  proof
    fix r assume r: "r \<in> set ys"
    with ay have ra: "r \<noteq> a" by auto
    show "position (?h1 r) \<noteq> position (?h1 att)"
    proof (cases "att = a")
      case True
      with ra r nt ps show ?thesis by simp
    next
      case False
      with ra r ny show ?thesis by simp
    qed
  qed
  then have "fold (setPosition att tgt) ys ?h1 = ?h1"
    by (rule fold_setPosition_nomatch)
  then show ?thesis
    unfolding ps using nx by (simp add: fold_setPosition_nomatch s1)
qed

lemma removeFirst_unique:
  "distinct (map f xs) \<Longrightarrow> t \<in> set xs \<Longrightarrow> removeFirst (\<lambda>r. f r = f t) xs = remove1 t xs"
proof (induction xs)
  case Nil
  then show ?case by simp
next
  case (Cons x xs)
  then show ?case by (cases "x = t") (auto simp: image_iff)
qed

lemma removeFirst_none: "\<forall>x\<in>set xs. \<not> P x \<Longrightarrow> removeFirst P xs = xs"
  by (induction xs) auto

lemma applyCapture_distinct:
  assumes d: "distinct (map (\<lambda>r. position (h r)) ps)"
    and a: "a \<in> set ps" "position (h a) = position (h att)"
    and t: "t \<in> set ps" "position (h t) = position (h tgt)"
    and ne: "position (h att) \<noteq> position (h tgt)"
  shows "applyCapture h ps att tgt =
      (h(a := (h a)\<lparr>position := position (h tgt)\<rparr>), remove1 t ps, True)"
proof -
  have rl: "removeLoop h ps tgt 0 = remove1 t ps"
    using removeFirst_unique [OF d t(1)] by (simp add: removeLoop_removeFirst t(2))
  have d': "distinct (map (\<lambda>r. position (h r)) (remove1 t ps))"
    using d by (auto simp: distinct_map intro: inj_on_subset)
  from d have dps: "distinct ps" and inj: "inj_on (\<lambda>r. position (h r)) (set ps)"
    by (simp_all add: distinct_map)
  from a t ne have "a \<noteq> t" by auto
  with a(1) have a': "a \<in> set (remove1 t ps)" by simp
  have nt: "\<forall>r\<in>set (remove1 t ps). position (h r) \<noteq> position (h tgt)"
  proof
    fix r assume "r \<in> set (remove1 t ps)"
    with dps have "r \<in> set ps" "r \<noteq> t" by auto
    with inj_onD [OF inj _ \<open>r \<in> set ps\<close> t(1)] t(2)
    show "position (h r) \<noteq> position (h tgt)" by auto
  qed
  have len: "int (length (remove1 t ps)) = int (length ps) - 1"
    using t(1) by (cases ps) (auto simp: length_remove1 dest: length_pos_if_in_set)
  show ?thesis
    by (simp add: applyCapture_def Let_def rl len fold_setPosition_unique [OF d' a' a(2) nt])
qed

lemma applyCapture_notarget:
  assumes "\<forall>r\<in>set ps. position (h r) \<noteq> position (h tgt)"
  shows "applyCapture h ps att tgt = (fold (setPosition att tgt) ps h, ps, False)"
  using assms by (simp add: applyCapture_def Let_def removeLoop_removeFirst removeFirst_none)

lemma findPiece_unique:
  assumes "x \<in> set (pieces b)" "position x = pos"
    and "\<forall>p\<in>set (pieces b). position p = pos \<longrightarrow> p = x"
  shows "findPiece b pos = Some x"
proof -
  let ?fs = "filter (\<lambda>p. position p = pos) (pieces b)"
  from assms(1,2) have ne: "?fs \<noteq> []" by (auto simp: filter_empty_conv)
  then have "last ?fs \<in> set ?fs" by (rule last_in_set)
  with assms(3) have "last ?fs = x" by auto
  with ne show ?thesis by (simp add: findPiece_filter)
qed

text \<open>
  Claim C1: for every board whose pieces occupy pairwise-distinct positions and every
  capture whose attacker and target are at distinct positions held by pieces \<open>a\<close> and \<open>t\<close> of
  that board (the capture's own objects when they are on the board, or the board's pieces
  with the same positions when the board is a clone), \<open>applyCapture\<close> returns true, the new
  piece count is the old count minus one, the piece \<open>a\<close> formerly at the attacker's position
  now has the target's former position and is what \<open>findPiece\<close> finds there, and the piece
  \<open>t\<close> is no longer on the board; the other pieces are unchanged. On every board whatsoever,
  \<open>applyCapture\<close> returns true if and only if the piece count decreased by exactly one.
\<close>

theorem applyCapture_capture:
  "case applyCapture h ps att tgt of (h', ps', result) \<Rightarrow>
     (result \<longleftrightarrow> int (length ps') = int (length ps) - 1) \<and>
     (distinct (map (\<lambda>r. position (h r)) ps) \<and>
      a \<in> set ps \<and> position (h a) = position (h att) \<and>
      t \<in> set ps \<and> position (h t) = position (h tgt) \<and>
      position (h att) \<noteq> position (h tgt) \<longrightarrow>
        result \<and> int (length ps') = int (length ps) - 1 \<and>
        position (h' a) = position (h tgt) \<and> a \<in> set ps' \<and> t \<notin> set ps' \<and>
        (\<forall>r\<in>set ps'. r \<noteq> a \<longrightarrow> h' r = h r) \<and>
        findPiece (contents h' ps') (position (h tgt)) = Some (h' a))"
proof -
  have iff: "case applyCapture h ps att tgt of (h', ps', result) \<Rightarrow>
     (result \<longleftrightarrow> int (length ps') = int (length ps) - 1)"
    by (simp add: applyCapture_def Let_def)
  show ?thesis
  proof (cases "distinct (map (\<lambda>r. position (h r)) ps) \<and>
      a \<in> set ps \<and> position (h a) = position (h att) \<and>
      t \<in> set ps \<and> position (h t) = position (h tgt) \<and>
      position (h att) \<noteq> position (h tgt)")
    case False
    with iff show ?thesis by (auto split: prod.splits)
  next
    case True
    then have d: "distinct (map (\<lambda>r. position (h r)) ps)"
      and a: "a \<in> set ps" "position (h a) = position (h att)"
      and t: "t \<in> set ps" "position (h t) = position (h tgt)"
      and ne: "position (h att) \<noteq> position (h tgt)"
      by simp_all
    let ?h' = "h(a := (h a)\<lparr>position := position (h tgt)\<rparr>)"
    note eq = applyCapture_distinct [OF d a t ne]
    from d have dps: "distinct ps" and inj: "inj_on (\<lambda>r. position (h r)) (set ps)"
      by (simp_all add: distinct_map)
    from a t ne have at: "a \<noteq> t" by auto
    have len: "int (length (remove1 t ps)) = int (length ps) - 1"
      using iff by (simp add: eq)
    have a': "a \<in> set (remove1 t ps)" using a(1) at by simp
    have t': "t \<notin> set (remove1 t ps)" using dps by simp
    have fp: "findPiece (contents ?h' (remove1 t ps)) (position (h tgt)) = Some (?h' a)"
    proof (rule findPiece_unique)
      show "?h' a \<in> set (pieces (contents ?h' (remove1 t ps)))"
        using a' by (simp add: contents_def)
      show "position (?h' a) = position (h tgt)" by simp
      show "\<forall>p\<in>set (pieces (contents ?h' (remove1 t ps))).
          position p = position (h tgt) \<longrightarrow> p = ?h' a"
      proof
        fix p assume "p \<in> set (pieces (contents ?h' (remove1 t ps)))"
        then obtain r where r: "r \<in> set (remove1 t ps)" and p: "p = ?h' r"
          by (auto simp: contents_def)
        from r dps have rps: "r \<in> set ps" and rt: "r \<noteq> t" by auto
        show "position p = position (h tgt) \<longrightarrow> p = ?h' a"
        proof (cases "r = a")
          case True
          with p show ?thesis by simp
        next
          case False
          from inj_onD [OF inj _ rps t(1)] rt t(2)
          have "position (h r) \<noteq> position (h tgt)" by auto
          with False p show ?thesis by simp
        qed
      qed
    qed
    show ?thesis
      using len a' t' fp by (simp add: eq)
  qed
qed

theorem applyCapture_capture_witness:
  "distinct (map (\<lambda>r. position (exampleStore r)) [0, 1]) \<and>
   position (exampleStore 0) \<noteq> position (exampleStore 1) \<and>
   (case applyCapture exampleStore [0, 1] 0 1 of (h', ps', result) \<Rightarrow>
      result \<and> length ps' = 1 \<and> position (h' 0) = ''d7'' \<and> 0 \<in> set ps' \<and> 1 \<notin> set ps')"
  using applyCapture_capture [where h = exampleStore and ps = "[0, 1]" and att = 0
      and tgt = 1 and a = 0 and t = 1]
  by (simp add: exampleStore_def new_Piece_def split: prod.splits)

text \<open>
  Claim C9: \<open>applyCapture\<close> is not atomic on failure. For every board with no piece at the
  capture's target position it returns false and removes no piece, yet the first piece in
  list order at the capture's attacker position has its position overwritten with the
  target position; so has every piece at the attacker position when the board's positions
  are pairwise distinct or the capture's attacker object is not itself on the board.
\<close>

theorem applyCapture_failure_mutates:
  assumes "\<forall>r\<in>set ps. position (h r) \<noteq> position (h tgt)"
  shows "case applyCapture h ps att tgt of (h', ps', result) \<Rightarrow>
     \<not> result \<and> ps' = ps \<and>
     (\<forall>xs a ys. ps = xs @ a # ys \<and> (\<forall>r\<in>set xs. position (h r) \<noteq> position (h att)) \<and>
        position (h a) = position (h att) \<longrightarrow> position (h' a) = position (h tgt)) \<and>
     (\<forall>a\<in>set ps. position (h a) = position (h att) \<and>
        (att \<notin> set ps \<or> distinct (map (\<lambda>r. position (h r)) ps)) \<longrightarrow>
        position (h' a) = position (h tgt))"
proof -
  let ?h' = "fold (setPosition att tgt) ps h"
  note eq = applyCapture_notarget [OF assms]
  have first: "position (?h' a) = position (h tgt)"
    if "ps = xs @ a # ys" "\<forall>r\<in>set xs. position (h r) \<noteq> position (h att)"
      "position (h a) = position (h att)" for xs a ys
    using fold_setPosition_first [OF that(2,3)] that(1) by simp
  have every: "position (?h' a) = position (h tgt)"
    if a: "a \<in> set ps" "position (h a) = position (h att)"
      and c: "att \<notin> set ps \<or> distinct (map (\<lambda>r. position (h r)) ps)" for a
  proof (cases "att \<notin> set ps")
    case True
    from assms have "tgt \<notin> set ps" by auto
    from fold_setPosition_fresh [OF True this] a show ?thesis
      by (simp add: moved_def)
  next
    case False
    with c have d: "distinct (map (\<lambda>r. position (h r)) ps)" by simp
    from a(1) obtain xs ys where ps: "ps = xs @ a # ys" by (auto dest: split_list)
    from d have dps: "distinct ps" and inj: "inj_on (\<lambda>r. position (h r)) (set ps)"
      by (simp_all add: distinct_map)
    have nx: "\<forall>r\<in>set xs. position (h r) \<noteq> position (h att)"
    proof
      fix r assume r: "r \<in> set xs"
      with dps have "r \<noteq> a" unfolding ps by auto
      moreover from r have "r \<in> set ps" unfolding ps by simp
      ultimately show "position (h r) \<noteq> position (h att)"
        using inj_onD [OF inj _ _ a(1)] a(2) by auto
    qed
    from first [OF ps nx a(2)] show ?thesis .
  qed
  have A: "\<forall>xs a ys. ps = xs @ a # ys \<and> (\<forall>r\<in>set xs. position (h r) \<noteq> position (h att)) \<and>
        position (h a) = position (h att) \<longrightarrow> position (?h' a) = position (h tgt)"
    using first by blast
  have B: "\<forall>a\<in>set ps. position (h a) = position (h att) \<and>
        (att \<notin> set ps \<or> distinct (map (\<lambda>r. position (h r)) ps)) \<longrightarrow>
        position (?h' a) = position (h tgt)"
    using every by blast
  from A B show ?thesis
    by (simp only: eq prod.case simp_thms)
qed

theorem applyCapture_failure_mutates_witness:
  "position (exampleStore 0) \<noteq> position (exampleStore 1) \<and>
   (case applyCapture exampleStore [0] 0 1 of (h', ps', result) \<Rightarrow>
      \<not> result \<and> ps' = [0] \<and> position (exampleStore 0) = ''d4'' \<and> position (h' 0) = ''d7'')"
  using applyCapture_failure_mutates [where h = exampleStore and ps = "[0]" and att = 0
      and tgt = 1]
  by (simp add: exampleStore_def new_Piece_def split: prod.splits)

subsection \<open>Coordinates\<close>

lemma validLabel_encode:
  assumes "validLabel s"
  shows "\<exists>x y. onBoard x y \<and> s = encode x y"
proof -
  from assms obtain f r where s: "s = [f, r]" and f: "f \<in> set ''abcdefgh''"
    and r: "r \<in> set ''12345678''"
    by (auto simp: validLabel_def split: list.splits)
  from f have fx: "1 \<le> (of_char f :: int) - 96 \<and> (of_char f :: int) - 96 \<le> 8" by auto
  from r have ry: "1 \<le> (of_char r :: int) - 48 \<and> (of_char r :: int) - 48 \<le> 8" by auto
  have "s = encode (of_char f - 96) (of_char r - 48)"
    by (simp add: s encode_def)
  with fx ry show ?thesis unfolding onBoard_def by blast
qed

lemma calculatePosition_encode:
  assumes "onBoard x y"
  shows "calculatePosition (encode x y) move k =
     (if onBoard (x + k * directionX move) (y + k * directionY move)
      then Some (encode (x + k * directionX move) (y + k * directionY move)) else None)"
proof -
  from assms have x: "(x + 96) mod 256 = x + 96" and y: "(y + 48) mod 256 = y + 48"
    by (simp_all add: onBoard_def)
  have cx: "charCodeAt0 (encode x y) = Some (x + 96)"
    by (simp add: charCodeAt0_def encode_def x)
  have py: "parseInt (charAt1 (encode x y)) = Some y"
    using assms by (simp add: parseInt_def charAt1_def encode_def y onBoard_def)
  show ?thesis
    unfolding calculatePosition_def cx py
    by (auto simp: num_add_def num_lt_def num_gt_def Let_def
        fromCharCode_def numberToString_def encode_def onBoard_def)
qed

lemma encode_inject:
  assumes "onBoard x y" "onBoard x' y'" "encode x y = encode x' y'"
  shows "x = x' \<and> y = y'"
proof -
  from assms(3) have "(of_char (char_of (x + 96)) :: int) = of_char (char_of (x' + 96))"
    and "(of_char (char_of (y + 48)) :: int) = of_char (char_of (y' + 48))"
    by (simp_all add: encode_def)
  with assms(1,2) show ?thesis by (simp add: onBoard_def)
qed


lemma calculatePosition_nonempty: "calculatePosition s move k \<noteq> Some []"
  by (auto simp: calculatePosition_def Let_def fromCharCode_def numberToString_def
      split: option.splits)

subsection \<open>The slide loop\<close>

lemma slideLoop_step:
  "slideLoop this board move i captures =
     (if i \<le> 7 then
        (case occupant this board move i of
           None \<Rightarrow> slideLoop this board move (Suc i) captures
         | Some tgt \<Rightarrow>
             if color tgt \<noteq> color this
             then captures @ [\<lparr>attacker = this, target = tgt\<rparr>]
             else captures)
      else captures)"
  using calculatePosition_nonempty [of "position this" move "int i"]
  by (subst slideLoop.simps) (simp add: occupant_def split: option.splits)

lemma slideLoop_free:
  "(\<forall>j. i \<le> j \<and> j \<le> 7 \<longrightarrow> occupant this board move j = None) \<Longrightarrow>
   slideLoop this board move i captures = captures"
proof (induction "8 - i" arbitrary: i)
  case 0
  then show ?case by (subst slideLoop_step) simp
next
  case (Suc n)
  from Suc.hyps(2) have i7: "i \<le> 7" by simp
  with Suc.prems have "occupant this board move i = None" by simp
  moreover have "slideLoop this board move (Suc i) captures = captures"
    using Suc.hyps(2) Suc.prems by (intro Suc.hyps(1)) auto
  ultimately show ?case by (subst slideLoop_step) (simp add: i7)
qed

lemma slideLoop_first:
  "i \<le> k \<Longrightarrow> k \<le> 7 \<Longrightarrow>
   (\<forall>j. i \<le> j \<and> j < k \<longrightarrow> occupant this board move j = None) \<Longrightarrow>
   occupant this board move k = Some tgt \<Longrightarrow>
   slideLoop this board move i captures =
     captures @ (if color tgt \<noteq> color this then [\<lparr>attacker = this, target = tgt\<rparr>] else [])"
proof (induction "k - i" arbitrary: i)
  case 0
  then have "i = k" by simp
  with 0 show ?case by (subst slideLoop_step) simp
next
  case (Suc n)
  from Suc.hyps(2) Suc.prems have ik: "i < k" "i \<le> 7" by simp_all
  with Suc.prems have "occupant this board move i = None" by simp
  moreover have "slideLoop this board move (Suc i) captures =
     captures @ (if color tgt \<noteq> color this then [\<lparr>attacker = this, target = tgt\<rparr>] else [])"
    using Suc.hyps(2) Suc.prems ik by (intro Suc.hyps(1)) auto
  ultimately show ?case by (subst slideLoop_step) (simp add: ik)
qed

lemma first_occupied:
  assumes "\<not> (\<forall>j. i \<le> j \<and> j \<le> (7::nat) \<longrightarrow> f j = None)"
  shows "\<exists>k tgt. i \<le> k \<and> k \<le> 7 \<and> (\<forall>j. i \<le> j \<and> j < k \<longrightarrow> f j = None) \<and> f k = Some tgt"
proof -
  let ?P = "\<lambda>j. i \<le> j \<and> j \<le> 7 \<and> f j \<noteq> None"
  from assms have ex: "\<exists>j. ?P j" by auto
  define k where "k = (LEAST j. ?P j)"
  from ex have Pk: "?P k" unfolding k_def by (rule LeastI_ex)
  have "\<forall>j. i \<le> j \<and> j < k \<longrightarrow> f j = None"
  proof (intro allI impI)
    fix j assume j: "i \<le> j \<and> j < k"
    show "f j = None"
    proof (rule ccontr)
      assume "f j \<noteq> None"
      with j Pk have "?P j" by simp
      then have "k \<le> j" unfolding k_def by (rule Least_le)
      with j show False by simp
    qed
  qed
  with Pk show ?thesis by auto
qed

lemma slide_emitted:
  assumes "mtype move = Slide"
  shows "\<exists>emitted. forMove this board move captures = captures @ emitted \<and>
     length emitted \<le> 1 \<and>
     (\<forall>k tgt. k \<in> {1..7} \<and> (\<forall>i\<in>{1..<k}. occupant this board move i = None) \<and>
        occupant this board move k = Some tgt \<longrightarrow>
        emitted = (if color tgt \<noteq> color this
                   then [\<lparr>attacker = this, target = tgt\<rparr>] else [])) \<and>
     ((\<forall>i\<in>{1..7}. occupant this board move i = None) \<longrightarrow> emitted = [])"
proof -
  let ?f = "occupant this board move"
  let ?cap = "\<lambda>tgt. if color tgt \<noteq> color this
                   then [\<lparr>attacker = this, target = tgt\<rparr>] else []"
  from assms have fm: "forMove this board move captures = slideLoop this board move 1 captures"
    by (simp add: forMove_def)
  show ?thesis
  proof (cases "\<forall>j. 1 \<le> j \<and> j \<le> 7 \<longrightarrow> ?f j = None")
    case True
    then have "forMove this board move captures = captures @ []"
      by (simp add: fm slideLoop_free)
    moreover from True have "\<forall>k tgt. k \<in> {1..7} \<and> (\<forall>i\<in>{1..<k}. ?f i = None) \<and>
        ?f k = Some tgt \<longrightarrow> [] = ?cap tgt"
      by auto
    ultimately show ?thesis by (intro exI [of _ "[]"]) simp
  next
    case False
    from first_occupied [OF False] obtain k0 t0 where k0: "1 \<le> k0" "k0 \<le> 7"
      and free: "\<forall>j. 1 \<le> j \<and> j < k0 \<longrightarrow> ?f j = None" and t0: "?f k0 = Some t0"
      by blast
    have eq: "forMove this board move captures = captures @ ?cap t0"
      unfolding fm by (rule slideLoop_first [OF k0 free t0])
    have uniq: "?cap t0 = ?cap tgt"
      if "k \<in> {1..7}" "\<forall>i\<in>{1..<k}. ?f i = None" "?f k = Some tgt" for k tgt
    proof -
      have "k = k0"
      proof (rule ccontr)
        assume "k \<noteq> k0"
        then consider "k < k0" | "k0 < k" by arith
        then show False
        proof cases
          case 1
          with free that(1,3) show False by simp
        next
          case 2
          with that(2) k0 t0 show False by simp
        qed
      qed
      with that(3) t0 show ?thesis by simp
    qed
    have none: "\<not> (\<forall>i\<in>{1..7}. ?f i = None)"
      using k0 t0 by auto
    have "length (?cap t0) \<le> 1" by simp
    with eq uniq none show ?thesis by (intro exI [of _ "?cap t0"]) blast
  qed
qed






subsection \<open>The captures of a piece\<close>

lemma slideLoop_append:
  "slideLoop this board move i captures = captures @ slideLoop this board move i []"
proof (cases "\<forall>j. i \<le> j \<and> j \<le> 7 \<longrightarrow> occupant this board move j = None")
  case True
  then show ?thesis by (simp add: slideLoop_free)
next
  case False
  from first_occupied [OF False] obtain k tgt where "i \<le> k" "k \<le> 7"
    "\<forall>j. i \<le> j \<and> j < k \<longrightarrow> occupant this board move j = None"
    "occupant this board move k = Some tgt"
    by blast
  from slideLoop_first [OF this] show ?thesis by simp
qed

lemma forMove_append:
  "forMove this board move captures = captures @ forMove this board move []"
proof (cases "mtype move")
  case Jump
  then show ?thesis by (simp add: forMove_def split: option.splits)
next
  case Slide
  then show ?thesis using slideLoop_append [of this board move 1 captures]
    by (simp add: forMove_def)
qed

lemma fold_forMove:
  "fold (forMove this board) ms captures =
     captures @ concat (map (\<lambda>m. forMove this board m []) ms)"
proof (induction ms arbitrary: captures)
  case Nil
  show ?case by simp
next
  case (Cons m ms)
  show ?case
    using forMove_append [of this board m captures] by (simp add: Cons.IH)
qed

lemma getPossibleCaptures_concat:
  "getPossibleCaptures this board = concat (map (\<lambda>m. forMove this board m []) (moveOptions this))"
  by (simp add: getPossibleCaptures_def fold_forMove)

lemma occupant_SomeD:
  assumes "occupant this board move k = Some tgt"
  shows "findPiece board (position tgt) = Some tgt"
proof -
  from assms obtain pos where "findPiece board pos = Some tgt"
    by (auto simp: occupant_def split: option.splits)
  with findPiece_SomeD [OF this] show ?thesis by simp
qed

lemma forMove_emits:
  "forMove this board move [] = [] \<or>
   (\<exists>k tgt. occupant this board move k = Some tgt \<and> color tgt \<noteq> color this \<and>
      forMove this board move [] = [\<lparr>attacker = this, target = tgt\<rparr>])"
proof (cases "mtype move")
  case Jump
  then have fm: "forMove this board move [] =
      (case occupant this board move 1 of
         None \<Rightarrow> []
       | Some tgt \<Rightarrow> if color tgt \<noteq> color this
                     then [\<lparr>attacker = this, target = tgt\<rparr>] else [])"
    using calculatePosition_nonempty [of "position this" move 1]
    by (auto simp: forMove_def occupant_def split: option.splits)
  show ?thesis
  proof (cases "occupant this board move 1")
    case None
    with fm show ?thesis by simp
  next
    case (Some tgt)
    show ?thesis
    proof (cases "color tgt \<noteq> color this")
      case True
      with Some fm have "occupant this board move 1 = Some tgt \<and> color tgt \<noteq> color this \<and>
          forMove this board move [] = [\<lparr>attacker = this, target = tgt\<rparr>]"
        by simp
      then show ?thesis by blast
    next
      case False
      with Some fm show ?thesis by simp
    qed
  qed
next
  case Slide
  then have fm: "forMove this board move [] = slideLoop this board move 1 []"
    by (simp add: forMove_def)
  show ?thesis
  proof (cases "\<forall>j. 1 \<le> j \<and> j \<le> 7 \<longrightarrow> occupant this board move j = None")
    case True
    then show ?thesis by (simp add: fm slideLoop_free)
  next
    case False
    from first_occupied [OF False] obtain k tgt where k: "1 \<le> k" "k \<le> 7"
      "\<forall>j. 1 \<le> j \<and> j < k \<longrightarrow> occupant this board move j = None"
      "occupant this board move k = Some tgt"
      by blast
    from slideLoop_first [OF k, of "[]"] k(4) show ?thesis
      by (cases "color tgt \<noteq> color this") (auto simp: fm)
  qed
qed

lemma getPossibleCaptures_D:
  assumes "c \<in> set (getPossibleCaptures this board)"
  shows "attacker c = this \<and> color (target c) \<noteq> color this \<and>
         findPiece board (position (target c)) = Some (target c)"
proof -
  from assms obtain m where "c \<in> set (forMove this board m [])"
    by (auto simp: getPossibleCaptures_concat)
  with forMove_emits [of this board m] obtain k tgt where
    "occupant this board m k = Some tgt" "color tgt \<noteq> color this"
    "c = \<lparr>attacker = this, target = tgt\<rparr>"
    by auto
  with occupant_SomeD [OF this(1)] show ?thesis by simp
qed

lemma capture_applies:
  assumes "c \<in> set (getPossibleCaptures piece this)"
  shows "snd (cloneAndApply this c)"
proof -
  from getPossibleCaptures_D [OF assms]
  have "findPiece this (position (target c)) = Some (target c)" by simp
  from findPiece_SomeD [OF this] show ?thesis
    by (auto simp: cloneAndApply_eq)
qed

text \<open>
  Claim C5: for every piece, board and Slide move, capture generation adds at most one
  capture for that move: what the move contributes to \<open>captures\<close> is a list \<open>emitted\<close> of
  at most one capture, and for a move of the piece's table the result of
  \<open>getPossibleCaptures\<close> is the captures of the moves before it, then \<open>emitted\<close>, then the
  captures of the moves after it. \<open>emitted\<close> is the capture of the piece on the first
  occupied square along the ray (steps 1..7) if that piece has the opposing color, and
  nothing if it has the piece's own color or if no square of the ray is occupied; so no
  square beyond the first occupied one ever yields a capture for that move.
\<close>

theorem slide_first_occupied:
  assumes "mtype move = Slide"
  shows "\<exists>emitted.
     forMove this board move captures = captures @ emitted \<and>
     (\<forall>before after. moveOptions this = before @ move # after \<longrightarrow>
        getPossibleCaptures this board =
          concat (map (\<lambda>m. forMove this board m []) before) @ emitted @
          concat (map (\<lambda>m. forMove this board m []) after)) \<and>
     length emitted \<le> 1 \<and>
     (\<forall>k tgt. k \<in> {1..7} \<and> (\<forall>i\<in>{1..<k}. occupant this board move i = None) \<and>
        occupant this board move k = Some tgt \<longrightarrow>
        emitted = (if color tgt \<noteq> color this
                   then [\<lparr>attacker = this, target = tgt\<rparr>] else [])) \<and>
     ((\<forall>i\<in>{1..7}. occupant this board move i = None) \<longrightarrow> emitted = [])"
proof -
  from slide_emitted [OF assms, of this board "[]"]
  obtain emitted where e: "forMove this board move [] = emitted"
    and len: "length emitted \<le> 1"
    and first: "\<forall>k tgt. k \<in> {1..7} \<and> (\<forall>i\<in>{1..<k}. occupant this board move i = None) \<and>
        occupant this board move k = Some tgt \<longrightarrow>
        emitted = (if color tgt \<noteq> color this
                   then [\<lparr>attacker = this, target = tgt\<rparr>] else [])"
    and none: "(\<forall>i\<in>{1..7}. occupant this board move i = None) \<longrightarrow> emitted = []"
    by auto
  have app: "forMove this board move captures = captures @ emitted"
    using forMove_append [of this board move captures] by (simp add: e)
  have gen: "\<forall>before after. moveOptions this = before @ move # after \<longrightarrow>
        getPossibleCaptures this board =
          concat (map (\<lambda>m. forMove this board m []) before) @ emitted @
          concat (map (\<lambda>m. forMove this board m []) after)"
    by (simp add: getPossibleCaptures_concat e)
  from app gen len first none show ?thesis by blast
qed

theorem slide_first_occupied_witness:
  "mtype (mv 0 1 Slide) = Slide \<and> mtype (mv (-1) 0 Slide) = Slide \<and>
   moveOptions (new_Piece Rook Black ''d4'') =
     [mv (-1) 0 Slide, mv 0 (-1) Slide] @ mv 0 1 Slide # [mv 1 0 Slide] \<and>
   occupant (new_Piece Rook Black ''d4'') exampleBoard (mv 0 1 Slide) 1 = None \<and>
   occupant (new_Piece Rook Black ''d4'') exampleBoard (mv 0 1 Slide) 2 =
     Some (new_Piece Pawn White ''d6'') \<and>
   forMove (new_Piece Rook Black ''d4'') exampleBoard (mv 0 1 Slide) [] =
     [\<lparr>attacker = new_Piece Rook Black ''d4'', target = new_Piece Pawn White ''d6''\<rparr>] \<and>
   forMove (new_Piece Rook White ''d4'') exampleBoard (mv 0 1 Slide) [] = [] \<and>
   getPossibleCaptures (new_Piece Rook Black ''d4'') exampleBoard =
     [\<lparr>attacker = new_Piece Rook Black ''d4'', target = new_Piece Pawn White ''d6''\<rparr>] \<and>
   getPossibleCaptures (new_Piece Rook White ''d4'') exampleBoard =
     [\<lparr>attacker = new_Piece Rook White ''d4'', target = new_Piece Knight Black ''a4''\<rparr>]"
proof -
  let ?rb = "new_Piece Rook Black ''d4''"
  let ?rw = "new_Piece Rook White ''d4''"
  let ?up = "mv 0 1 Slide"
  let ?left = "mv (-1) 0 Slide"
  let ?f = "\<lambda>this m. forMove this exampleBoard m []"
  have tb: "moveOptions ?rb = [?left, mv 0 (-1) Slide] @ ?up # [mv 1 0 Slide]"
    and tw: "moveOptions ?rw = [?left, mv 0 (-1) Slide] @ ?up # [mv 1 0 Slide]"
    and tw': "moveOptions ?rw = [] @ ?left # [mv 0 (-1) Slide, ?up, mv 1 0 Slide]"
    by (simp_all add: new_Piece_def)
  have o1: "occupant ?rb exampleBoard ?up 1 = None" by code_simp
  have o2: "occupant ?rb exampleBoard ?up 2 = Some (new_Piece Pawn White ''d6'')" by code_simp
  have w1: "occupant ?rw exampleBoard ?up 1 = None" by code_simp
  have w2: "occupant ?rw exampleBoard ?up 2 = Some (new_Piece Pawn White ''d6'')" by code_simp
  have l1: "occupant ?rw exampleBoard ?left 1 = None" by code_simp
  have l2: "occupant ?rw exampleBoard ?left 2 = None" by code_simp
  have l3: "occupant ?rw exampleBoard ?left 3 = Some (new_Piece Knight Black ''a4'')"
    by code_simp
  have cb: "color ?rb = Black" and cw: "color ?rw = White"
    and cp: "color (new_Piece Pawn White ''d6'') = White"
    and ck: "color (new_Piece Knight Black ''a4'') = Black"
    by (simp_all add: new_Piece_def)
  have rest_b: "?f ?rb ?left = []" "?f ?rb (mv 0 (-1) Slide) = []" "?f ?rb (mv 1 0 Slide) = []"
    by code_simp+
  have rest_w: "?f ?rw (mv 0 (-1) Slide) = []" "?f ?rw (mv 1 0 Slide) = []"
    by code_simp+
  have free1: "\<forall>i\<in>{1..<2::nat}. occupant ?rb exampleBoard ?up i = None"
    using o1 by (auto simp: atLeastLessThan_def numeral_2_eq_2 less_Suc_eq)
  have free1w: "\<forall>i\<in>{1..<2::nat}. occupant ?rw exampleBoard ?up i = None"
    using w1 by (auto simp: numeral_2_eq_2 less_Suc_eq)
  have free2w: "\<forall>i\<in>{1..<3::nat}. occupant ?rw exampleBoard ?left i = None"
    using l1 l2 by (auto simp: numeral_3_eq_3 numeral_2_eq_2 less_Suc_eq)
  from slide_first_occupied [of ?up ?rb exampleBoard "[]"]
  obtain eb where eb: "forMove ?rb exampleBoard ?up [] = [] @ eb"
    "\<forall>before after. moveOptions ?rb = before @ ?up # after \<longrightarrow>
        getPossibleCaptures ?rb exampleBoard =
          concat (map (?f ?rb) before) @ eb @ concat (map (?f ?rb) after)"
    "\<forall>k tgt. k \<in> {1..7} \<and> (\<forall>i\<in>{1..<k}. occupant ?rb exampleBoard ?up i = None) \<and>
        occupant ?rb exampleBoard ?up k = Some tgt \<longrightarrow>
        eb = (if color tgt \<noteq> color ?rb then [\<lparr>attacker = ?rb, target = tgt\<rparr>] else [])"
    by auto
  from eb(3) [rule_format, of 2 "new_Piece Pawn White ''d6''"] free1 o2 cb cp
  have eb_eq: "eb = [\<lparr>attacker = ?rb, target = new_Piece Pawn White ''d6''\<rparr>]" by simp
  from eb(2) tb have "getPossibleCaptures ?rb exampleBoard =
      concat (map (?f ?rb) [?left, mv 0 (-1) Slide]) @ eb @ concat (map (?f ?rb) [mv 1 0 Slide])"
    by blast
  then have gb: "getPossibleCaptures ?rb exampleBoard =
      [\<lparr>attacker = ?rb, target = new_Piece Pawn White ''d6''\<rparr>]"
    by (simp add: rest_b eb_eq)
  from slide_first_occupied [of ?up ?rw exampleBoard "[]"]
  obtain ew where ew: "forMove ?rw exampleBoard ?up [] = [] @ ew"
    "\<forall>k tgt. k \<in> {1..7} \<and> (\<forall>i\<in>{1..<k}. occupant ?rw exampleBoard ?up i = None) \<and>
        occupant ?rw exampleBoard ?up k = Some tgt \<longrightarrow>
        ew = (if color tgt \<noteq> color ?rw then [\<lparr>attacker = ?rw, target = tgt\<rparr>] else [])"
    by auto
  from ew(2) [rule_format, of 2 "new_Piece Pawn White ''d6''"] free1w w2 cw cp
  have ew_eq: "ew = []" by simp
  from slide_first_occupied [of ?left ?rw exampleBoard "[]"]
  obtain el where el: "forMove ?rw exampleBoard ?left [] = [] @ el"
    "\<forall>before after. moveOptions ?rw = before @ ?left # after \<longrightarrow>
        getPossibleCaptures ?rw exampleBoard =
          concat (map (?f ?rw) before) @ el @ concat (map (?f ?rw) after)"
    "\<forall>k tgt. k \<in> {1..7} \<and> (\<forall>i\<in>{1..<k}. occupant ?rw exampleBoard ?left i = None) \<and>
        occupant ?rw exampleBoard ?left k = Some tgt \<longrightarrow>
        el = (if color tgt \<noteq> color ?rw then [\<lparr>attacker = ?rw, target = tgt\<rparr>] else [])"
    by auto
  from el(3) [rule_format, of 3 "new_Piece Knight Black ''a4''"] free2w l3 cw ck
  have el_eq: "el = [\<lparr>attacker = ?rw, target = new_Piece Knight Black ''a4''\<rparr>]" by simp
  from el(2) tw' have "getPossibleCaptures ?rw exampleBoard =
      concat (map (?f ?rw) []) @ el @
      concat (map (?f ?rw) [mv 0 (-1) Slide, ?up, mv 1 0 Slide])"
    by blast
  then have gw: "getPossibleCaptures ?rw exampleBoard =
      [\<lparr>attacker = ?rw, target = new_Piece Knight Black ''a4''\<rparr>]"
    using ew(1) by (simp add: rest_w el_eq ew_eq)
  from tb o1 o2 eb(1) eb_eq ew(1) ew_eq gb gw show ?thesis by simp
qed

subsection \<open>The search, one invocation at a time\<close>

lemma allCaptures_D:
  assumes "c \<in> set (allCaptures this t)"
  shows "color (attacker c) = t \<and> attacker c \<in> set (pieces this) \<and>
         c \<in> set (getPossibleCaptures (attacker c) this)"
proof -
  from assms obtain p where p: "p \<in> set (pieces this)" "color p = t"
    "c \<in> set (getPossibleCaptures p this)"
    by (auto simp: allCaptures_def split: if_splits)
  with getPossibleCaptures_D [OF p(3)] show ?thesis by simp
qed

lemma allCaptures_Nil_iff:
  "allCaptures this t = [] \<longleftrightarrow>
     \<not> (\<exists>piece\<in>set (pieces this). color piece = t \<and> getPossibleCaptures piece this \<noteq> [])"
  by (auto simp: allCaptures_def)

lemma recursiveCalls_map:
  "recursiveCalls this history t =
     (if length (pieces this) = 1 then []
      else map (\<lambda>c. (fst (cloneAndApply this c), history @ [c], if t = White then Black else White))
             (allCaptures this t))"
proof -
  have "concat (map (\<lambda>capture.
          (let (newBoard, result) = cloneAndApply this capture
           in if result
              then [(newBoard, history @ [capture], if t = White then Black else White)]
              else [])) cs) =
        map (\<lambda>c. (fst (cloneAndApply this c), history @ [c], if t = White then Black else White)) cs"
    if "\<forall>c\<in>set cs. snd (cloneAndApply this c)" for cs
    using that by (induction cs) (auto simp: Let_def split: prod.splits)
  moreover have "\<forall>c\<in>set (allCaptures this t). snd (cloneAndApply this c)"
    using allCaptures_D capture_applies by blast
  ultimately show ?thesis by (simp add: recursiveCalls_def)
qed

lemma fold_pieces:
  "fold (\<lambda>piece (movePossible, g).
       if color piece = t then
         (let captures = C piece;
              movePossible = (if length captures > 0 then True else movePossible)
          in (movePossible, fold F captures g))
       else (movePossible, g)) ps (mp, g) =
   (mp \<or> (\<exists>p\<in>set ps. color p = t \<and> C p \<noteq> []),
    fold F (concat (map (\<lambda>p. if color p = t then C p else []) ps)) g)"
  by (induction ps arbitrary: mp g) (auto simp: Let_def)

lemma fold_captures:
  assumes "\<forall>c\<in>set cs. snd (cloneAndApply this c)"
  shows "fold (\<lambda>capture g.
       (let (newBoard, result) = cloneAndApply this capture
        in if result then
             (let nextColor = (if t = White then Black else White)
              in solveRecursive newBoard (history @ [capture]) nextColor g)
           else g\<lparr>console := console g @ [MoveFailed]\<rparr>)) cs g =
     fold (\<lambda>(b, h, t'). solveRecursive b h t')
       (map (\<lambda>c. (fst (cloneAndApply this c), history @ [c], if t = White then Black else White)) cs) g"
  using assms by (induction cs arbitrary: g) (auto simp: Let_def split: prod.splits)

lemma solveRecursive_unfold:
  "solveRecursive this history t g =
     (if length (pieces this) = 1 then
        g\<lparr>console := console g @ [Solved history], solutionsCount := solutionsCount g + 1\<rparr>
      else
        (let g' = fold (\<lambda>(b, h, t'). solveRecursive b h t') (recursiveCalls this history t) g
         in if allCaptures this t = [] then g'\<lparr>deadEndCount := deadEndCount g' + 1\<rparr> else g'))"
proof (cases "length (pieces this) = 1")
  case True
  then show ?thesis by (subst solveRecursive.simps) simp
next
  case False
  have ok: "\<forall>c\<in>set (allCaptures this t). snd (cloneAndApply this c)"
    using allCaptures_D capture_applies by blast
  show ?thesis
    apply (subst solveRecursive.simps)
    apply (simp only: fold_pieces)
    apply (simp only: allCaptures_def [symmetric] fold_captures [OF ok])
    apply (simp add: False recursiveCalls_map allCaptures_Nil_iff Let_def)
    done
qed

lemma call_length:
  assumes "(b', h', t') \<in> set (recursiveCalls b h t)"
  shows "length (pieces b') + 1 = length (pieces b) \<and> 1 \<le> length (pieces b') \<and>
         (\<exists>c. h' = h @ [c] \<and> color (attacker c) = t) \<and>
         t' = (if t = White then Black else White)"
proof -
  from assms obtain c where c: "c \<in> set (allCaptures b t)"
    and b': "b' = fst (cloneAndApply b c)" and h': "h' = h @ [c]"
    and t': "t' = (if t = White then Black else White)" and n1: "length (pieces b) \<noteq> 1"
    by (auto simp: recursiveCalls_map split: if_splits)
  from allCaptures_D [OF c] have col: "color (attacker c) = t"
    and gp: "c \<in> set (getPossibleCaptures (attacker c) b)" by simp_all
  from getPossibleCaptures_D [OF gp]
  have "findPiece b (position (target c)) = Some (target c)" by simp
  from findPiece_SomeD [OF this] have tg: "target c \<in> set (pieces b)" by simp
  then have ex: "\<exists>x\<in>set (map Piece_clone (pieces b)). position x = position (target c)"
    by (auto simp: Piece_clone_def new_Piece_def)
  from tg have pos: "0 < length (pieces b)" by (rule length_pos_if_in_set)
  have "length (pieces b') = length (pieces b) - 1"
    using ex unfolding b' cloneAndApply_eq by (simp add: length_removeFirst)
  moreover from pos n1 have "2 \<le> length (pieces b)" by arith
  ultimately have "length (pieces b') + 1 = length (pieces b) \<and> 1 \<le> length (pieces b')"
    by arith
  with col h' t' show ?thesis by blast
qed

text \<open>
  Claim C3: for every invocation of the recursive search on a board with more than one
  piece, the dead-end counter is incremented by that invocation itself, exactly once, if
  and only if no piece of the side to move produced a capture: the invocation returns the
  globals that its recursive invocations leave, with the dead-end counter incremented by
  one when no capture was produced and untouched otherwise. When no capture was produced
  there is no recursive invocation, and the invocation as a whole only increments the
  dead-end counter by one. The decision reads the capture lists only, not the results of
  applying the captures.
\<close>

theorem dead_end_decision:
  assumes "1 < length (pieces this)"
  shows "solveRecursive this history turnColor g =
      (let g' = fold (\<lambda>(b, h, t). solveRecursive b h t)
                  (recursiveCalls this history turnColor) g
       in if \<exists>piece\<in>set (pieces this).
               color piece = turnColor \<and> getPossibleCaptures piece this \<noteq> []
          then g' else g'\<lparr>deadEndCount := deadEndCount g' + 1\<rparr>) \<and>
     ((\<forall>piece\<in>set (pieces this).
          color piece = turnColor \<longrightarrow> getPossibleCaptures piece this = []) \<longrightarrow>
        recursiveCalls this history turnColor = [] \<and>
        solveRecursive this history turnColor g = g\<lparr>deadEndCount := deadEndCount g + 1\<rparr>)"
proof -
  from assms have n1: "length (pieces this) \<noteq> 1" by simp
  have first: "solveRecursive this history turnColor g =
      (let g' = fold (\<lambda>(b, h, t). solveRecursive b h t)
                  (recursiveCalls this history turnColor) g
       in if \<exists>piece\<in>set (pieces this).
               color piece = turnColor \<and> getPossibleCaptures piece this \<noteq> []
          then g' else g'\<lparr>deadEndCount := deadEndCount g' + 1\<rparr>)"
    using n1 by (subst solveRecursive_unfold) (simp add: allCaptures_Nil_iff Let_def)
  have second: "recursiveCalls this history turnColor = [] \<and>
        solveRecursive this history turnColor g = g\<lparr>deadEndCount := deadEndCount g + 1\<rparr>"
    if "\<forall>piece\<in>set (pieces this).
          color piece = turnColor \<longrightarrow> getPossibleCaptures piece this = []"
  proof -
    from that have "allCaptures this turnColor = []"
      by (auto simp: allCaptures_Nil_iff)
    with n1 show ?thesis
      by (subst solveRecursive_unfold) (simp add: recursiveCalls_map)
  qed
  from first second show ?thesis by blast
qed

theorem dead_end_decision_witness:
  "1 < length (pieces deadEndBoard) \<and>
   pieces deadEndBoard = [new_Piece Knight White ''a1'', new_Piece Pawn Black ''b2''] \<and>
   getPossibleCaptures (new_Piece Knight White ''a1'') deadEndBoard = [] \<and>
   solveRecursive deadEndBoard [] White initialGlobals =
     \<lparr>solutionsCount = 0, deadEndCount = 1, console = []\<rparr>"
proof -
  have len: "1 < length (pieces deadEndBoard)" by (simp add: deadEndBoard_def)
  have b: "pieces deadEndBoard = [new_Piece Knight White ''a1'', new_Piece Pawn Black ''b2'']"
    by (simp add: deadEndBoard_def)
  have k: "getPossibleCaptures (new_Piece Knight White ''a1'') deadEndBoard = []"
    by code_simp
  then have none: "\<forall>piece\<in>set (pieces deadEndBoard).
      color piece = White \<longrightarrow> getPossibleCaptures piece deadEndBoard = []"
    by (simp add: deadEndBoard_def new_Piece_def)
  from dead_end_decision [OF len, of "[]" White initialGlobals] none
  have "solveRecursive deadEndBoard [] White initialGlobals =
      initialGlobals\<lparr>deadEndCount := deadEndCount initialGlobals + 1\<rparr>"
    by blast
  with len b k show ?thesis by (simp add: initialGlobals_def)
qed

lemma solveRecursive_rel_iff:
  "solveRecursive_rel (b', h', t', g') (b, h, t, g) \<longleftrightarrow>
     (b', h', t') \<in> set (recursiveCalls b h t)"
proof
  assume "solveRecursive_rel (b', h', t', g') (b, h, t, g)"
  then obtain piece capture result where n1: "length (pieces b) \<noteq> 1"
    and p: "piece \<in> set (pieces b)" "color piece = t"
    and c: "capture \<in> set (getPossibleCaptures piece b)"
    and r: "(b', result) = cloneAndApply b capture"
    and h': "h' = h @ [capture]" and t': "t' = (if t = White then Black else White)"
    by (cases rule: solveRecursive_rel.cases) auto
  from p c have "capture \<in> set (allCaptures b t)"
    by (auto simp: allCaptures_def)
  moreover from r have "b' = fst (cloneAndApply b capture)"
    by (metis fst_conv)
  ultimately show "(b', h', t') \<in> set (recursiveCalls b h t)"
    using n1 h' t' by (auto simp: recursiveCalls_map)
next
  assume "(b', h', t') \<in> set (recursiveCalls b h t)"
  then obtain c where n1: "length (pieces b) \<noteq> 1" and c: "c \<in> set (allCaptures b t)"
    and b': "b' = fst (cloneAndApply b c)" and h': "h' = h @ [c]"
    and t': "t' = (if t = White then Black else White)"
    by (auto simp: recursiveCalls_map split: if_splits)
  from c obtain p where p: "p \<in> set (pieces b)" "color p = t"
    "c \<in> set (getPossibleCaptures p b)"
    by (auto simp: allCaptures_def split: if_splits)
  from capture_applies [OF p(3)] have ok: "snd (cloneAndApply b c)" .
  have "solveRecursive_rel (b', h @ [c], t', g') (b, h, t, g)"
  proof (rule solveRecursive_rel.intros [where x = p and xa = False and xe = c
        and y = "snd (cloneAndApply b c)"])
    show "length (pieces b) \<noteq> 1" by (rule n1)
    show "p \<in> set (pieces b)" by (rule p(1))
    show "color p = t" by (rule p(2))
    show "getPossibleCaptures p b = getPossibleCaptures p b" by (rule refl)
    show "(if 0 < length (getPossibleCaptures p b) then True else False) =
        (if 0 < length (getPossibleCaptures p b) then True else False)" by (rule refl)
    show "c \<in> set (getPossibleCaptures p b)" by (rule p(3))
    show "cloneAndApply b c = cloneAndApply b c" by (rule refl)
    show "(b', snd (cloneAndApply b c)) = cloneAndApply b c" by (simp add: b')
    show "snd (cloneAndApply b c)" by (rule ok)
    show "t' = (if t = White then Black else White)" by (rule t')
  qed
  then show "solveRecursive_rel (b', h', t', g') (b, h, t, g)" by (simp add: h')
qed

lemma solveRecursive_rel_length:
  assumes "solveRecursive_rel callee caller"
  shows "length (pieces (fst callee)) + 1 = length (pieces (fst caller)) \<and>
         1 \<le> length (pieces (fst callee))"
proof -
  obtain b h t g where x: "caller = (b, h, t, g)" by (cases caller)
  obtain b' h' t' g' where y: "callee = (b', h', t', g')" by (cases callee)
  from assms have "(b', h', t') \<in> set (recursiveCalls b h t)"
    by (simp add: x y solveRecursive_rel_iff)
  from call_length [OF this] show ?thesis by (simp add: x y)
qed

lemma solveRecursive_rel_chain:
  "((\<lambda>caller callee. solveRecursive_rel callee caller) ^^ n) x y \<Longrightarrow>
   length (pieces (fst y)) + n = length (pieces (fst x)) \<and>
   (0 < n \<longrightarrow> 1 \<le> length (pieces (fst y)))"
proof (induction n arbitrary: y)
  case 0
  then show ?case by simp
next
  case (Suc n)
  then obtain z where z: "((\<lambda>caller callee. solveRecursive_rel callee caller) ^^ n) x z"
    and zy: "solveRecursive_rel y z" by auto
  from Suc.IH [OF z] solveRecursive_rel_length [OF zy] show ?case by simp
qed

text \<open>
  Claim C7: the recursive search terminates on every board. \<open>solveRecursive_rel\<close> is the
  relation of the recursive calls in the body of \<open>solveRecursive\<close>, generated from its
  definition: it holds of a callee and a caller, each with its board, history, turn color
  and globals. This relation is well-founded; every recursive invocation is made on a
  board with exactly one piece fewer than the board of its caller; and a chain of \<open>n\<close>
  nested invocations below an invocation on a non-empty board \<open>b\<close> has \<open>n\<close> at most the
  piece count of \<open>b\<close> minus one. (An invocation on the empty board makes no recursive
  invocation.)
\<close>

theorem search_depth:
  "wf {(callee, caller). solveRecursive_rel callee caller} \<and>
   (solveRecursive_rel (b', h', t', g') (b, h, t, g) \<longrightarrow>
      int (length (pieces b')) = int (length (pieces b)) - 1) \<and>
   (pieces b \<noteq> [] \<and>
    ((\<lambda>caller callee. solveRecursive_rel callee caller) ^^ n) (b, h, t, g) (b', h', t', g') \<longrightarrow>
      int n \<le> int (length (pieces b)) - 1)"
proof (intro conjI impI)
  have "(y, x) \<in> measure (\<lambda>x. length (pieces (fst x)))" if "solveRecursive_rel y x" for x y
    using solveRecursive_rel_length [OF that] by simp
  then have "{(callee, caller). solveRecursive_rel callee caller}
      \<subseteq> measure (\<lambda>x. length (pieces (fst x)))"
    by blast
  then show "wf {(callee, caller). solveRecursive_rel callee caller}"
    by (rule wf_subset [OF wf_measure])
next
  assume "solveRecursive_rel (b', h', t', g') (b, h, t, g)"
  from solveRecursive_rel_length [OF this]
  show "int (length (pieces b')) = int (length (pieces b)) - 1" by simp
next
  assume a: "pieces b \<noteq> [] \<and>
    ((\<lambda>caller callee. solveRecursive_rel callee caller) ^^ n) (b, h, t, g) (b', h', t', g')"
  then have "0 < length (pieces b)" by simp
  with solveRecursive_rel_chain [of n "(b, h, t, g)" "(b', h', t', g')"] a
  show "int n \<le> int (length (pieces b)) - 1"
    by (cases n) auto
qed

theorem search_depth_witness:
  "pieces altBoard \<noteq> [] \<and>
   solveRecursive_rel
     (\<lparr>pieces = [new_Piece Rook White ''a8'', new_Piece Queen Black ''h1'']\<rparr>,
      [\<lparr>attacker = new_Piece Rook White ''a1'', target = new_Piece Queen Black ''a8''\<rparr>],
      Black, initialGlobals)
     (altBoard, [], White, initialGlobals) \<and>
   int (length (pieces \<lparr>pieces = [new_Piece Rook White ''a8'', new_Piece Queen Black ''h1'']\<rparr>))
     = int (length (pieces altBoard)) - 1 \<and>
   ((\<lambda>caller callee. solveRecursive_rel callee caller) ^^ 2)
     (altBoard, [], White, initialGlobals)
     (\<lparr>pieces = [new_Piece Queen Black ''a8'']\<rparr>,
      [\<lparr>attacker = new_Piece Rook White ''a1'', target = new_Piece Queen Black ''a8''\<rparr>,
       \<lparr>attacker = new_Piece Queen Black ''h1'', target = new_Piece Rook White ''a8''\<rparr>],
      White, initialGlobals) \<and>
   int 2 \<le> int (length (pieces altBoard)) - 1"
proof -
  let ?b1 = "\<lparr>pieces = [new_Piece Rook White ''a8'', new_Piece Queen Black ''h1'']\<rparr>"
  let ?b2 = "\<lparr>pieces = [new_Piece Queen Black ''a8'']\<rparr>"
  let ?c1 = "\<lparr>attacker = new_Piece Rook White ''a1'', target = new_Piece Queen Black ''a8''\<rparr>"
  let ?c2 = "\<lparr>attacker = new_Piece Queen Black ''h1'', target = new_Piece Rook White ''a8''\<rparr>"
  let ?R = "\<lambda>caller callee. solveRecursive_rel callee caller"
  have ne: "pieces altBoard \<noteq> []" by (simp add: altBoard_def)
  have "(?b1, [?c1], Black) \<in> set (recursiveCalls altBoard [] White)" by code_simp
  then have s1: "solveRecursive_rel (?b1, [?c1], Black, initialGlobals)
      (altBoard, [], White, initialGlobals)"
    by (simp only: solveRecursive_rel_iff)
  have "(?b2, [?c1, ?c2], White) \<in> set (recursiveCalls ?b1 [?c1] Black)" by code_simp
  then have s2: "solveRecursive_rel (?b2, [?c1, ?c2], White, initialGlobals)
      (?b1, [?c1], Black, initialGlobals)"
    by (simp only: solveRecursive_rel_iff)
  have "(?R ^^ Suc (Suc 0)) (altBoard, [], White, initialGlobals)
      (?b2, [?c1, ?c2], White, initialGlobals)"
    by (rule relpowp_Suc_I [OF relpowp_Suc_I [OF relpowp_0_I]]) (rule s1, rule s2)
  then have ch: "(?R ^^ 2) (altBoard, [], White, initialGlobals)
      (?b2, [?c1, ?c2], White, initialGlobals)"
    by (simp only: numeral_2_eq_2)
  note inst1 = search_depth [of ?b1 "[?c1]" Black initialGlobals altBoard "[]" White
      initialGlobals 0]
  note inst2 = search_depth [of ?b2 "[?c1, ?c2]" White initialGlobals altBoard "[]" White
      initialGlobals 2]
  from inst1 s1 have l: "int (length (pieces ?b1)) = int (length (pieces altBoard)) - 1"
    by blast
  from inst2 ne ch have d: "int 2 \<le> int (length (pieces altBoard)) - 1"
    by blast
  from ne s1 l ch d show ?thesis by blast
qed

subsection \<open>Turn alternation\<close>

lemma appendsAlternating_refl: "appendsAlternating h t g g"
  by (simp add: appendsAlternating_def)

lemma appendsAlternating_trans:
  assumes "appendsAlternating h t g g'" "appendsAlternating h t g' g''"
  shows "appendsAlternating h t g g''"
proof -
  from assms(1) obtain n1 where n1: "console g' = console g @ n1"
    "\<forall>hist. Solved hist \<in> set n1 \<longrightarrow>
       (\<exists>ext. hist = h @ ext \<and> alternates t (map (\<lambda>c. color (attacker c)) ext))"
    unfolding appendsAlternating_def by blast
  from assms(2) obtain n2 where n2: "console g'' = console g' @ n2"
    "\<forall>hist. Solved hist \<in> set n2 \<longrightarrow>
       (\<exists>ext. hist = h @ ext \<and> alternates t (map (\<lambda>c. color (attacker c)) ext))"
    unfolding appendsAlternating_def by blast
  from n1 n2 have "console g'' = console g @ (n1 @ n2)" by simp
  moreover from n1(2) n2(2) have "\<forall>hist. Solved hist \<in> set (n1 @ n2) \<longrightarrow>
       (\<exists>ext. hist = h @ ext \<and> alternates t (map (\<lambda>c. color (attacker c)) ext))"
    by auto
  ultimately show ?thesis unfolding appendsAlternating_def by blast
qed

lemma appendsAlternating_call:
  assumes "appendsAlternating (h @ [c]) (if t = White then Black else White) g g'"
    and "color (attacker c) = t"
  shows "appendsAlternating h t g g'"
proof -
  from assms(1) obtain new where new: "console g' = console g @ new"
    "\<forall>hist. Solved hist \<in> set new \<longrightarrow>
       (\<exists>ext. hist = (h @ [c]) @ ext \<and>
          alternates (if t = White then Black else White) (map (\<lambda>c. color (attacker c)) ext))"
    unfolding appendsAlternating_def by blast
  have "\<exists>ext. hist = h @ ext \<and> alternates t (map (\<lambda>c. color (attacker c)) ext)"
    if "Solved hist \<in> set new" for hist
  proof -
    from new(2) that obtain ext where "hist = (h @ [c]) @ ext"
      "alternates (if t = White then Black else White) (map (\<lambda>c. color (attacker c)) ext)"
      by blast
    with assms(2) have "hist = h @ (c # ext) \<and>
        alternates t (map (\<lambda>c. color (attacker c)) (c # ext))"
      by simp
    then show ?thesis by blast
  qed
  with new(1) show ?thesis unfolding appendsAlternating_def by blast
qed

lemma appendsAlternating_fold:
  assumes "\<And>b' h' t' g. (b', h', t') \<in> set cs \<Longrightarrow>
      appendsAlternating h t g (solveRecursive b' h' t' g)"
  shows "appendsAlternating h t g (fold (\<lambda>(b, h, t). solveRecursive b h t) cs g)"
  using assms
proof (induction cs arbitrary: g)
  case Nil
  show ?case by (simp add: appendsAlternating_refl)
next
  case (Cons x cs)
  obtain b' h' t' where x: "x = (b', h', t')" by (cases x)
  have 1: "appendsAlternating h t g (solveRecursive b' h' t' g)"
    by (rule Cons.prems) (simp add: x)
  have 2: "appendsAlternating h t (solveRecursive b' h' t' g)
      (fold (\<lambda>(b, h, t). solveRecursive b h t) cs (solveRecursive b' h' t' g))"
    by (rule Cons.IH) (rule Cons.prems, simp)
  from appendsAlternating_trans [OF 1 2] show ?case by (simp add: x)
qed

lemma solveRecursive_alternating:
  "appendsAlternating h t g (solveRecursive this h t g)"
proof (induction "length (pieces this)" arbitrary: this h t g rule: less_induct)
  case less
  show ?case
  proof (cases "length (pieces this) = 1")
    case True
    have "console (solveRecursive this h t g) = console g @ [Solved h]"
      using True by (subst solveRecursive_unfold) simp
    moreover have "h = h @ [] \<and> alternates t (map (\<lambda>c. color (attacker c)) [])" by simp
    ultimately show ?thesis unfolding appendsAlternating_def by auto
  next
    case False
    let ?g' = "fold (\<lambda>(b, h, t). solveRecursive b h t) (recursiveCalls this h t) g"
    have "appendsAlternating h t g ?g'"
    proof (rule appendsAlternating_fold)
      fix b' h' t' g0 assume call: "(b', h', t') \<in> set (recursiveCalls this h t)"
      from call_length [OF call] obtain c where len: "length (pieces b') < length (pieces this)"
        and h': "h' = h @ [c]" and col: "color (attacker c) = t"
        and t': "t' = (if t = White then Black else White)"
        by auto
      from less [OF len, of h' t' g0]
      show "appendsAlternating h t g0 (solveRecursive b' h' t' g0)"
        unfolding h' t' using col by (rule appendsAlternating_call)
    qed
    moreover have "console (solveRecursive this h t g) = console ?g'"
      using False by (subst solveRecursive_unfold) (simp add: Let_def)
    ultimately show ?thesis unfolding appendsAlternating_def by simp
  qed
qed

text \<open>
  Claim C6: in every capture sequence recorded as a solution by the search started with
  \<open>solve\<close>, the attacker colors strictly alternate, beginning with White: the first
  capture's attacker is White and each later capture's attacker has the color opposite to
  its predecessor's.
\<close>

theorem solutions_alternate:
  assumes "Solved hist \<in> set (console (solve this))"
  shows "alternates White (map (\<lambda>c. color (attacker c)) hist)"
proof -
  from solveRecursive_alternating [of "[]" White initialGlobals this]
  obtain new where "console (solve this) = new"
    and "\<forall>hist. Solved hist \<in> set new \<longrightarrow>
       (\<exists>ext. hist = [] @ ext \<and> alternates White (map (\<lambda>c. color (attacker c)) ext))"
    unfolding appendsAlternating_def solve_def by (auto simp: initialGlobals_def)
  with assms show ?thesis by auto
qed

theorem solutions_alternate_witness:
  "Solved [\<lparr>attacker = new_Piece Rook White ''a1'', target = new_Piece Queen Black ''a8''\<rparr>,
           \<lparr>attacker = new_Piece Queen Black ''h1'', target = new_Piece Rook White ''a8''\<rparr>]
     \<in> set (console (solve altBoard)) \<and>
   map (\<lambda>c. color (attacker c))
     [\<lparr>attacker = new_Piece Rook White ''a1'', target = new_Piece Queen Black ''a8''\<rparr>,
      \<lparr>attacker = new_Piece Queen Black ''h1'', target = new_Piece Rook White ''a8''\<rparr>]
     = [White, Black] \<and>
   alternates White (map (\<lambda>c. color (attacker c))
     [\<lparr>attacker = new_Piece Rook White ''a1'', target = new_Piece Queen Black ''a8''\<rparr>,
      \<lparr>attacker = new_Piece Queen Black ''h1'', target = new_Piece Rook White ''a8''\<rparr>])"
proof -
  let ?c1 = "\<lparr>attacker = new_Piece Rook White ''a1'', target = new_Piece Queen Black ''a8''\<rparr>"
  let ?c2 = "\<lparr>attacker = new_Piece Queen Black ''h1'', target = new_Piece Rook White ''a8''\<rparr>"
  let ?c3 = "\<lparr>attacker = new_Piece Rook White ''a1'', target = new_Piece Queen Black ''h1''\<rparr>"
  let ?c4 = "\<lparr>attacker = new_Piece Queen Black ''a8'', target = new_Piece Rook White ''h1''\<rparr>"
  have "console (solve altBoard) = [Solved [?c1, ?c2], Solved [?c3, ?c4]]"
    by code_simp
  then have m: "Solved [?c1, ?c2] \<in> set (console (solve altBoard))" by simp
  have cols: "map (\<lambda>c. color (attacker c)) [?c1, ?c2] = [White, Black]"
    by (simp add: new_Piece_def)
  from solutions_alternate [OF m] m cols show ?thesis by blast
qed

subsection \<open>Two pieces\<close>

lemma table_kinds:
  "(\<forall>m\<in>set (moveOptions (new_Piece ty c pos)). mtype m = Jump) \<or>
   (\<forall>m\<in>set (moveOptions (new_Piece ty c pos)).
      mtype m = Slide \<and> directionX m \<in> {-1, 0, 1} \<and> directionY m \<in> {-1, 0, 1})"
  by (cases ty; cases c) (simp_all add: new_Piece_def)

lemma table_nonzero:
  "m \<in> set (moveOptions (new_Piece ty c pos)) \<Longrightarrow> directionX m \<noteq> 0 \<or> directionY m \<noteq> 0"
  by (cases ty; cases c) (auto simp: new_Piece_def)

lemma table_distinct:
  "distinct (map (\<lambda>m. (directionX m, directionY m, mtype m)) (moveOptions (new_Piece ty c pos)))"
  by (cases ty; cases c) (simp_all add: new_Piece_def)

lemma unit_scale:
  fixes a b k k' :: int
  assumes "a \<in> {-1, 0, 1}" "b \<in> {-1, 0, 1}" "1 \<le> k" "1 \<le> k'" "k * a = k' * b"
  shows "a = b"
  using assms by auto

lemma landsOn_steps:
  assumes "landsOn pos m s"
  obtains k :: nat where "1 \<le> k" "k \<le> 7" "mtype m = Jump \<longrightarrow> k = 1"
    "calculatePosition pos m (int k) = Some s"
proof (cases "mtype m")
  case Jump
  with assms have "calculatePosition pos m (int 1) = Some s" by (simp add: landsOn_def)
  with Jump that [of 1] show ?thesis by simp
next
  case Slide
  with assms obtain k :: nat where "1 \<le> k" "k \<le> 7" "calculatePosition pos m (int k) = Some s"
    by (auto simp: landsOn_def)
  with Slide that [of k] show ?thesis by simp
qed

lemma landsOn_unique:
  assumes v: "validLabel pos"
    and m: "m \<in> set (moveOptions (new_Piece ty c pos))"
    and m': "m' \<in> set (moveOptions (new_Piece ty c pos))"
    and l: "landsOn pos m s" and l': "landsOn pos m' s"
  shows "m = m'"
proof -
  from validLabel_encode [OF v] obtain x y where xy: "onBoard x y" "pos = encode x y" by blast
  from l obtain k :: nat where k: "1 \<le> k" "mtype m = Jump \<longrightarrow> k = 1"
    "calculatePosition pos m (int k) = Some s" by (rule landsOn_steps)
  from l' obtain k' :: nat where k': "1 \<le> k'" "mtype m' = Jump \<longrightarrow> k' = 1"
    "calculatePosition pos m' (int k') = Some s" by (rule landsOn_steps)
  from k(3) have on: "onBoard (x + int k * directionX m) (y + int k * directionY m)"
    and s: "s = encode (x + int k * directionX m) (y + int k * directionY m)"
    by (auto simp: xy calculatePosition_encode split: if_splits)
  from k'(3) have on': "onBoard (x + int k' * directionX m') (y + int k' * directionY m')"
    and s': "s = encode (x + int k' * directionX m') (y + int k' * directionY m')"
    by (auto simp: xy calculatePosition_encode split: if_splits)
  from encode_inject [OF on on'] s s'
  have eqx: "int k * directionX m = int k' * directionX m'"
    and eqy: "int k * directionY m = int k' * directionY m'"
    by simp_all
  have dir: "directionX m = directionX m' \<and> directionY m = directionY m' \<and> mtype m = mtype m'"
    using table_kinds [of ty c pos]
  proof
    assume j: "\<forall>m\<in>set (moveOptions (new_Piece ty c pos)). mtype m = Jump"
    with m m' have "mtype m = Jump" "mtype m' = Jump" by simp_all
    with k(2) k'(2) eqx eqy show ?thesis by simp
  next
    assume sl: "\<forall>m\<in>set (moveOptions (new_Piece ty c pos)).
      mtype m = Slide \<and> directionX m \<in> {-1, 0, 1} \<and> directionY m \<in> {-1, 0, 1}"
    with m m' have a: "mtype m = Slide" "directionX m \<in> {-1, 0, 1}" "directionY m \<in> {-1, 0, 1}"
      and b: "mtype m' = Slide" "directionX m' \<in> {-1, 0, 1}" "directionY m' \<in> {-1, 0, 1}"
      by simp_all
    from k(1) k'(1) have "1 \<le> int k" "1 \<le> int k'" by simp_all
    from unit_scale [OF a(2) b(2) this eqx] unit_scale [OF a(3) b(3) this eqy] a(1) b(1)
    show ?thesis by simp
  qed
  from table_distinct [of ty c pos]
  have "inj_on (\<lambda>m. (directionX m, directionY m, mtype m)) (set (moveOptions (new_Piece ty c pos)))"
    by (simp add: distinct_map)
  from inj_onD [OF this _ m m'] dir show ?thesis by simp
qed

lemma not_self:
  assumes v: "validLabel pos"
    and m: "m \<in> set (moveOptions (new_Piece ty c pos))" and k: "1 \<le> k"
  shows "calculatePosition pos m (int k) \<noteq> Some pos"
proof
  assume c: "calculatePosition pos m (int k) = Some pos"
  from validLabel_encode [OF v] obtain x y where xy: "onBoard x y" "pos = encode x y" by blast
  from c have on: "onBoard (x + int k * directionX m) (y + int k * directionY m)"
    and s: "encode x y = encode (x + int k * directionX m) (y + int k * directionY m)"
    by (auto simp: xy calculatePosition_encode split: if_splits)
  from encode_inject [OF xy(1) on s] k have "directionX m = 0 \<and> directionY m = 0" by simp
  with table_nonzero [OF m] show False by simp
qed

lemma concat_none:
  "\<forall>m\<in>set ms. \<not> R m \<Longrightarrow> concat (map (\<lambda>m. if R m then [c] else []) ms) = []"
  by (induction ms) auto

lemma concat_single:
  assumes "distinct ms" "m \<in> set ms" "R m" "\<forall>m'\<in>set ms. R m' \<longrightarrow> m' = m"
  shows "concat (map (\<lambda>m. if R m then [c] else []) ms) = [c]"
proof -
  from assms(2) obtain xs ys where ms: "ms = xs @ m # ys" by (auto dest: split_list)
  with assms(1) have "m \<notin> set xs" "m \<notin> set ys" by auto
  with assms(4) have nx: "\<forall>m'\<in>set xs. \<not> R m'" and ny: "\<forall>m'\<in>set ys. \<not> R m'"
    unfolding ms by auto
  have cx: "concat (map (\<lambda>m. if R m then [c] else []) xs) = []"
    using nx by (rule concat_none)
  have cy: "concat (map (\<lambda>m. if R m then [c] else []) ys) = []"
    using ny by (rule concat_none)
  show ?thesis unfolding ms by (simp add: cx cy assms(3))
qed

lemma forMove_Jump:
  assumes "mtype move = Jump"
  shows "forMove this board move [] =
      (case occupant this board move 1 of
         None \<Rightarrow> []
       | Some tgt \<Rightarrow> if color tgt \<noteq> color this
                     then [\<lparr>attacker = this, target = tgt\<rparr>] else [])"
  using assms calculatePosition_nonempty [of "position this" move 1]
  by (auto simp: forMove_def occupant_def split: option.splits)

lemma two_piece_captures:
  assumes p: "p = new_Piece ty White pos" and q: "q = new_Piece ty' Black pos'"
    and v: "validLabel pos"
    and b: "pieces this = [p, q] \<or> pieces this = [q, p]"
    and m: "m \<in> set (moveOptions p)" and l: "landsOn pos m pos'"
  shows "getPossibleCaptures p this = [\<lparr>attacker = p, target = q\<rparr>]"
proof -
  let ?cap = "\<lparr>attacker = p, target = q\<rparr>"
  have pp: "position p = pos" "color p = White" by (simp_all add: p new_Piece_def)
  have pq: "position q = pos'" "color q = Black" by (simp_all add: q new_Piece_def)
  note tab = m [unfolded p]
  from l obtain k0 :: nat where k0: "1 \<le> k0" "calculatePosition pos m (int k0) = Some pos'"
    by (rule landsOn_steps)
  with not_self [OF v tab k0(1)] have ne: "pos' \<noteq> pos" by auto
  have fp: "findPiece this s = (if s = pos' then Some q else if s = pos then Some p else None)"
    for s
    using b ne by (auto simp: findPiece_def pp pq)
  have occ: "occupant p this m' k =
      (if calculatePosition pos m' (int k) = Some pos' then Some q else None)"
    if "m' \<in> set (moveOptions p)" "1 \<le> k" for m' k
    using not_self [OF v that(1) [unfolded p] that(2)]
    by (auto simp: occupant_def pp fp split: option.splits)
  have fm: "forMove p this m' [] = (if landsOn pos m' pos' then [?cap] else [])"
    if m': "m' \<in> set (moveOptions p)" for m'
  proof (cases "mtype m'")
    case Jump
    with occ [OF m', of 1] show ?thesis
      by (simp add: forMove_Jump landsOn_def pp pq)
  next
    case Slide
    then have fs: "forMove p this m' [] = slideLoop p this m' 1 []"
      by (simp add: forMove_def)
    show ?thesis
    proof (cases "\<exists>k\<in>{1..7::nat}. calculatePosition pos m' (int k) = Some pos'")
      case True
      then obtain k :: nat where k: "1 \<le> k" "k \<le> 7" "calculatePosition pos m' (int k) = Some pos'"
        by auto
      with occ [OF m' k(1)] have "occupant p this m' k = Some q" by simp
      with k have "\<not> (\<forall>j. 1 \<le> j \<and> j \<le> 7 \<longrightarrow> occupant p this m' j = None)" by auto
      from first_occupied [OF this] obtain k1 tgt where k1: "1 \<le> k1" "k1 \<le> 7"
        "\<forall>j. 1 \<le> j \<and> j < k1 \<longrightarrow> occupant p this m' j = None"
        "occupant p this m' k1 = Some tgt"
        by blast
      from k1(4) occ [OF m' k1(1)] have "tgt = q" by (simp split: if_splits)
      with slideLoop_first [OF k1, of "[]"] True Slide show ?thesis
        by (simp add: fs landsOn_def pp pq)
    next
      case False
      with occ [OF m'] have "\<forall>j. 1 \<le> j \<and> j \<le> 7 \<longrightarrow> occupant p this m' j = None"
        by auto
      from slideLoop_free [OF this] False Slide show ?thesis
        by (simp add: fs landsOn_def)
    qed
  qed
  from table_distinct [of ty White pos] have d: "distinct (moveOptions p)"
    by (simp add: distinct_map p)
  have u: "\<forall>m'\<in>set (moveOptions p). landsOn pos m' pos' \<longrightarrow> m' = m"
    using landsOn_unique [OF v _ tab _ l] by (auto simp: p)
  have "getPossibleCaptures p this =
      concat (map (\<lambda>m'. if landsOn pos m' pos' then [?cap] else []) (moveOptions p))"
    unfolding getPossibleCaptures_concat
    by (rule arg_cong [where f = concat], rule map_cong) (simp_all add: fm)
  also have "\<dots> = [?cap]"
    using d m l u by (rule concat_single)
  finally show ?thesis .
qed

lemma two_piece_solve:
  assumes p: "p = new_Piece ty White pos" and q: "q = new_Piece ty' Black pos'"
    and v: "validLabel pos"
    and b: "pieces this = [p, q] \<or> pieces this = [q, p]"
    and m: "m \<in> set (moveOptions p)" and l: "landsOn pos m pos'"
  shows "solve this =
      \<lparr>solutionsCount = 1, deadEndCount = 0, console = [Solved [\<lparr>attacker = p, target = q\<rparr>]]\<rparr>"
proof -
  let ?cap = "\<lparr>attacker = p, target = q\<rparr>"
  let ?nb = "fst (cloneAndApply this ?cap)"
  have pp: "color p = White" by (simp add: p new_Piece_def)
  have pq: "color q = Black" by (simp add: q new_Piece_def)
  note caps = two_piece_captures [OF assms]
  from b have n2: "length (pieces this) = 2" by auto
  have ac: "allCaptures this White = [?cap]"
    using b by (auto simp: allCaptures_def pp pq caps)
  have rc: "recursiveCalls this [] White = [(?nb, [?cap], Black)]"
    by (simp add: recursiveCalls_map n2 ac)
  then have "(?nb, [?cap], Black) \<in> set (recursiveCalls this [] White)" by simp
  from call_length [OF this] n2 have n1: "length (pieces ?nb) = 1" by simp
  have inner: "solveRecursive ?nb [?cap] Black initialGlobals =
      \<lparr>solutionsCount = 1, deadEndCount = 0, console = [Solved [?cap]]\<rparr>"
    using n1 by (subst solveRecursive_unfold) (simp add: initialGlobals_def)
  show ?thesis
    unfolding solve_def
    by (subst solveRecursive_unfold) (simp add: n2 rc ac inner)
qed

text \<open>
  Claim C4, as the code has it: the search starts with White to move, so a capture that
  only the Black piece can make is never tried. On the board below the black pawn's move
  table has a direction landing on the white knight's square, and the search ends with no
  solution and one dead end.
\<close>

theorem two_pieces_black_attacks_counterexample:
  "pieces deadEndBoard = [new_Piece Knight White ''a1'', new_Piece Pawn Black ''b2''] \<and>
   mv (-1) (-1) Jump \<in> set (moveOptions (new_Piece Pawn Black ''b2'')) \<and>
   calculatePosition ''b2'' (mv (-1) (-1) Jump) 1 = Some ''a1'' \<and>
   solutionsCount (solve deadEndBoard) = 0 \<and>
   deadEndCount (solve deadEndBoard) = 1"
proof -
  have "solve deadEndBoard = \<lparr>solutionsCount = 0, deadEndCount = 1, console = []\<rparr>"
    by code_simp
  moreover have "calculatePosition ''b2'' (mv (-1) (-1) Jump) 1 = Some ''a1''"
    by code_simp
  ultimately show ?thesis
    by (simp add: deadEndBoard_def new_Piece_def)
qed

text \<open>
  Claim C4 (amended): for every board containing exactly two pieces of opposite colors,
  built by the constructor, where the move table of the White piece, standing on a valid
  square, includes a direction (with some step count from 1 to 7, for slides) landing
  exactly on the Black piece's square, running the search from that board with White to
  move yields a final solutions count of 1 and a dead-end count of 0, and the single
  recorded solution contains exactly one capture, of the Black piece by the White piece.
\<close>

theorem two_piece_capture:
  assumes "p = new_Piece ty White pos" and "q = new_Piece ty' Black pos'"
    and "validLabel pos"
    and "pieces this = [p, q] \<or> pieces this = [q, p]"
    and "\<exists>m\<in>set (moveOptions p). landsOn pos m pos'"
  shows "solve this =
      \<lparr>solutionsCount = 1, deadEndCount = 0, console = [Solved [\<lparr>attacker = p, target = q\<rparr>]]\<rparr>"
proof -
  from assms(5) obtain m where "m \<in> set (moveOptions p)" "landsOn pos m pos'" by blast
  with assms(1-4) show ?thesis by (rule two_piece_solve)
qed

theorem two_piece_capture_witness:
  "validLabel ''d4'' \<and>
   pieces captureBoard = [new_Piece Rook White ''d4'', new_Piece Knight Black ''a4''] \<and>
   (\<exists>m\<in>set (moveOptions (new_Piece Rook White ''d4'')). landsOn ''d4'' m ''a4'') \<and>
   solve captureBoard =
     \<lparr>solutionsCount = 1, deadEndCount = 0,
      console = [Solved [\<lparr>attacker = new_Piece Rook White ''d4'',
                           target = new_Piece Knight Black ''a4''\<rparr>]]\<rparr>"
proof -
  have v: "validLabel ''d4''" by (simp add: validLabel_def)
  have b: "pieces captureBoard = [new_Piece Rook White ''d4'', new_Piece Knight Black ''a4'']"
    by (simp add: captureBoard_def)
  have c: "calculatePosition ''d4'' (mv (-1) 0 Slide) (int 3) = Some ''a4''" by code_simp
  have "mv (-1) 0 Slide \<in> set (moveOptions (new_Piece Rook White ''d4''))"
    by (simp add: new_Piece_def)
  moreover from c have "landsOn ''d4'' (mv (-1) 0 Slide) ''a4''"
    unfolding landsOn_def by (intro disjI2 conjI bexI [of _ 3]) simp_all
  ultimately have r: "\<exists>m\<in>set (moveOptions (new_Piece Rook White ''d4'')). landsOn ''d4'' m ''a4''"
    by blast
  from two_piece_capture [OF refl refl v disjI1 [OF b] r] v b r show ?thesis by blast
qed

end
